theory Spec2Isabelle
  imports Main "HOL-Library.Word" "HOL-Library.Log_Nat"
begin

unbundle bit_operations_syntax

section \<open>The CIS4 decoder of read\_cis.py\<close>

text \<open>
  The decoder works on Python's unbounded integers, modelled as \<open>int\<close>; a \<open>bytes\<close>
  object is a list of 8-bit words. Every exception the decoder can raise is a value
  of \<open>error\<close>, and a function that can raise returns \<open>error + 'a\<close>.
\<close>

datatype error =
    StructError   \<comment> \<open>struct.error: the buffer given to struct.unpack has the wrong size\<close>
  | TypeError     \<comment> \<open>ord() of a bytes object whose length is not 1\<close>
  | IndexError    \<comment> \<open>list index out of range\<close>
  | ValueError    \<comment> \<open>negative shift count\<close>
  | ZlibError     \<comment> \<open>zlib.error raised by zlib.decompress\<close>

definition ebind :: "error + 'a \<Rightarrow> ('a \<Rightarrow> error + 'b) \<Rightarrow> error + 'b" where
  "ebind m f = (case m of Inl e \<Rightarrow> Inl e | Inr x \<Rightarrow> f x)"

subsection \<open>BitReader\<close>

record BitReader =
  data :: "8 word list"
  byte_index :: nat
  bit_index :: int

definition BitReader_init :: "8 word list \<Rightarrow> BitReader" where
  "BitReader_init d = \<lparr>data = d, byte_index = 0, bit_index = 0\<rparr>"

text \<open>
  One round of the \<open>while\<close> loop of \<open>BitReader.read\<close> after the end-of-buffer test:
  \<open>take_bits\<close> is \<open>take = min(remaining, bits)\<close>, \<open>chunk_bits\<close> is
  \<open>(b >> (remaining - take)) & ((1 << take) - 1)\<close> and \<open>advance\<close> is the update of
  the cursor. Python raises ValueError on a negative shift count; \<open>remaining - take\<close>
  is never negative, so the only such count is a negative \<open>take\<close>.
\<close>

definition take_bits :: "BitReader \<Rightarrow> int \<Rightarrow> int" where
  "take_bits r bits = min (8 - bit_index r) bits"

definition chunk_bits :: "BitReader \<Rightarrow> int \<Rightarrow> int" where
  "chunk_bits r tk =
     drop_bit (nat ((8 - bit_index r) - tk)) (uint (data r ! byte_index r) AND 255)
       AND (push_bit (nat tk) 1 - 1)"

definition advance :: "BitReader \<Rightarrow> int \<Rightarrow> BitReader" where
  "advance r tk =
     (let r1 = r\<lparr>bit_index := bit_index r + tk\<rparr>
      in if bit_index r1 = 8
         then r1\<lparr>byte_index := byte_index r1 + 1, bit_index := 0\<rparr>
         else r1)"

function read_loop :: "BitReader \<Rightarrow> int \<Rightarrow> int \<Rightarrow> error + (int \<times> BitReader)" where
  "read_loop r bits result =
     (if bits > 0 then
        (if byte_index r \<ge> length (data r) then Inr (push_bit (nat bits) result, r)
         else if take_bits r bits < 0 then Inl ValueError
         else read_loop (advance r (take_bits r bits)) (bits - take_bits r bits)
                (push_bit (nat (take_bits r bits)) result OR chunk_bits r (take_bits r bits)))
      else Inr (result, r))"
  by pat_completeness auto
termination
  by (relation "measure (\<lambda>(r, bits, result). 2 * nat bits + (if bit_index r = 8 then 1 else 0))")
     (auto simp: advance_def take_bits_def Let_def min_def split: if_splits)

declare read_loop.simps [simp del]

definition read :: "BitReader \<Rightarrow> int \<Rightarrow> error + (int \<times> BitReader)" where
  "read r bits = (if bits = 0 then Inr (0, r) else read_loop r bits 0)"

definition read_bool :: "BitReader \<Rightarrow> error + (bool \<times> BitReader)" where
  "read_bool r = ebind (read r 1) (\<lambda>(v, r'). Inr (v = 1, r'))"

definition zigzag :: "int \<Rightarrow> int" where
  "zigzag n = drop_bit 1 n XOR (- (n AND 1))"

definition read_zigzag :: "BitReader \<Rightarrow> int \<Rightarrow> error + (int \<times> BitReader)" where
  "read_zigzag r bits = ebind (read r bits) (\<lambda>(n, r'). Inr (zigzag n, r'))"

text \<open>The cursor invariant and the absolute bit position.\<close>

definition cursor_ok :: "BitReader \<Rightarrow> bool" where
  "cursor_ok r = (0 \<le> bit_index r \<and> bit_index r < 8)"

definition bit_pos :: "BitReader \<Rightarrow> int" where
  "bit_pos r = int (byte_index r) * 8 + bit_index r"

text \<open>The bits between the cursor and the end of the buffer.\<close>

definition bits_left :: "BitReader \<Rightarrow> int" where
  "bits_left r = int (length (data r)) * 8 - bit_pos r"

text \<open>The reader over the same buffer extended with \<open>k\<close> zero bytes.\<close>

definition zero_padded :: "BitReader \<Rightarrow> nat \<Rightarrow> BitReader" where
  "zero_padded r k = r\<lparr>data := data r @ replicate k 0\<rparr>"

text \<open>
  The buffer as a stream of bits, most significant bit of each byte first:
  \<open>bit_at d k\<close> is bit \<open>k\<close> of the stream, and is 0 past the end of the buffer.
  \<open>stream_bits d pos n\<close> is the unsigned number written by the \<open>n\<close> bits from
  position \<open>pos\<close> on, the first of them the most significant.
\<close>

definition bit_at :: "8 word list \<Rightarrow> nat \<Rightarrow> bool" where
  "bit_at d k = (k div 8 < length d \<and> bit (d ! (k div 8)) (7 - k mod 8))"

fun stream_bits :: "8 word list \<Rightarrow> nat \<Rightarrow> nat \<Rightarrow> int" where
  "stream_bits d pos 0 = 0"
| "stream_bits d pos (Suc n) = 2 * stream_bits d pos n + of_bool (bit_at d (pos + n))"

subsection \<open>Byte streams and struct.unpack\<close>

text \<open>
  The stream of a \<open>CISDecoder\<close> is an \<open>io.BytesIO\<close>: the bytes not read yet.
  \<open>f.read(n)\<close> returns at most \<open>n\<close> of them and never raises.
\<close>

type_synonym bytes = "8 word list"

definition stream_read :: "nat \<Rightarrow> bytes \<Rightarrow> bytes \<times> bytes" where
  "stream_read n s = (take n s, drop n s)"

definition be_int :: "bytes \<Rightarrow> int" where
  "be_int bs = foldl (\<lambda>acc b. acc * 256 + uint b) 0 bs"

text \<open>
  \<open>struct.unpack(">I", b)[0]\<close> is \<open>unpack_be 4 b\<close> and \<open>struct.unpack(">H", b)[0]\<close>
  is \<open>unpack_be 2 b\<close>: struct.error unless the buffer has exactly the size of the
  format. \<open>ord(b)\<close> raises TypeError unless \<open>b\<close> has length 1.
\<close>

definition unpack_be :: "nat \<Rightarrow> bytes \<Rightarrow> error + int" where
  "unpack_be k bs = (if length bs = k then Inr (be_int bs) else Inl StructError)"

definition ord_byte :: "bytes \<Rightarrow> error + int" where
  "ord_byte bs = (case bs of [b] \<Rightarrow> Inr (uint b) | _ \<Rightarrow> Inl TypeError)"

text \<open>Python's \<open>xs[i]\<close>: a negative index counts from the end.\<close>

definition py_index :: "'a list \<Rightarrow> int \<Rightarrow> error + 'a" where
  "py_index xs i =
     (if 0 \<le> i \<and> i < int (length xs) then Inr (xs ! nat i)
      else if i < 0 \<and> - int (length xs) \<le> i then Inr (xs ! nat (int (length xs) + i))
      else Inl IndexError)"

subsection \<open>Palette names\<close>

fun str_nat :: "nat \<Rightarrow> string" where
  "str_nat n =
     (if n < 10 then [char_of (48 + n)]
      else str_nat (n div 10) @ [char_of (48 + n mod 10)])"

declare str_nat.simps [simp del]

definition str_int :: "int \<Rightarrow> string" where
  "str_int i = (if i < 0 then CHR ''-'' # str_nat (nat (- i)) else str_nat (nat i))"

definition get_facing_str :: "int \<Rightarrow> string option" where
  "get_facing_str facing_id =
     (if facing_id = 0 then Some ''down''
      else if facing_id = 1 then Some ''up''
      else if facing_id = 2 then Some ''north''
      else if facing_id = 3 then Some ''south''
      else if facing_id = 4 then Some ''west''
      else if facing_id = 5 then Some ''east''
      else None)"

text \<open>The body of the palette loop of \<open>decode_chunk\<close> after the two reads.\<close>

definition full_name :: "(int \<rightharpoonup> string) \<Rightarrow> int \<Rightarrow> int \<Rightarrow> string" where
  "full_name mapping mapping_id facing_data =
     (let base_name = (case mapping mapping_id of Some nm \<Rightarrow> nm
                       | None \<Rightarrow> ''unknown_'' @ str_int mapping_id)
      in base_name @
         (case get_facing_str facing_data of
            None \<Rightarrow> ''''
          | Some facing_str \<Rightarrow>
              if facing_str = '''' then '''' else ''[facing='' @ facing_str @ '']''))"

fun read_palette ::
  "(int \<rightharpoonup> string) \<Rightarrow> nat \<Rightarrow> bytes \<Rightarrow> string list \<Rightarrow> error + (string list \<times> bytes)" where
  "read_palette mapping 0 s global_palette = Inr (global_palette, s)"
| "read_palette mapping (Suc n) s global_palette =
     ebind (unpack_be 2 (fst (stream_read 2 s))) (\<lambda>mapping_id.
     ebind (ord_byte (fst (stream_read 1 (snd (stream_read 2 s))))) (\<lambda>facing_data.
       read_palette mapping n (snd (stream_read 1 (snd (stream_read 2 s))))
         (global_palette @ [full_name mapping mapping_id facing_data])))"

subsection \<open>decode\_micro\_cube\<close>

record BlockChange =
  blk_x :: int
  blk_y :: int
  blk_z :: int
  blk_state :: string

function bit_length :: "int \<Rightarrow> nat" where
  "bit_length n = (if n = 0 then 0 else Suc (bit_length (\<bar>n\<bar> div 2)))"
  by pat_completeness auto
termination
  by (relation "measure (\<lambda>n. nat \<bar>n\<bar>)") auto

declare bit_length.simps [simp del]

definition bits_per_id :: "int \<Rightarrow> int" where
  "bits_per_id palette_size =
     (if palette_size > 1 then int (bit_length (palette_size - 1)) else 0)"

text \<open>\<open>[reader.read(16) for _ in range(palette_size)]\<close>\<close>

fun read_ids :: "nat \<Rightarrow> BitReader \<Rightarrow> int list \<Rightarrow> error + (int list \<times> BitReader)" where
  "read_ids 0 r ids = Inr (ids, r)"
| "read_ids (Suc n) r ids = ebind (read r 16) (\<lambda>(v, r'). read_ids n r' (ids @ [v]))"

text \<open>The three optional fields of a block record, each behind its flag bit.\<close>

definition read_dy :: "BitReader \<Rightarrow> error + (int \<times> BitReader)" where
  "read_dy r =
     ebind (read_bool r) (\<lambda>(flag, r1). if flag then read_zigzag r1 6 else Inr (0, r1))"

definition read_lxz :: "BitReader \<Rightarrow> int \<Rightarrow> error + (int \<times> BitReader)" where
  "read_lxz r last_lxz =
     ebind (read_bool r) (\<lambda>(flag, r1). if flag then read r1 8 else Inr (last_lxz, r1))"

definition read_lid :: "BitReader \<Rightarrow> int \<Rightarrow> int \<Rightarrow> error + (int \<times> BitReader)" where
  "read_lid r palette_size last_lid =
     (if palette_size > 1
      then ebind (read_bool r) (\<lambda>(flag, r1).
             if flag then read r1 (bits_per_id palette_size) else Inr (last_lid, r1))
      else Inr (last_lid, r))"

definition resolve_state :: "string list \<Rightarrow> int \<Rightarrow> error + string" where
  "resolve_state global_palette gid =
     (if gid < int (length global_palette) then py_index global_palette gid
      else Inr ''INVALID'')"

text \<open>
  One round of the block loop. The running state is
  \<open>(last_ly, last_lxz, last_lid)\<close>; the result is the block appended, the new
  running state and the reader.
\<close>

definition decode_block ::
  "string list \<Rightarrow> int list \<Rightarrow> int \<Rightarrow> int \<Rightarrow> BitReader \<Rightarrow> int \<times> int \<times> int
   \<Rightarrow> error + (BlockChange \<times> (int \<times> int \<times> int) \<times> BitReader)" where
  "decode_block global_palette local_to_global palette_size sy r prev =
     (case prev of (last_ly, last_lxz, last_lid) \<Rightarrow>
        ebind (read_dy r) (\<lambda>(dy, r1).
        ebind (read_lxz r1 last_lxz) (\<lambda>(lxz, r2).
        ebind (read_lid r2 palette_size last_lid) (\<lambda>(lid, r3).
        ebind (py_index local_to_global lid) (\<lambda>gid.
        ebind (resolve_state global_palette gid) (\<lambda>st.
          Inr (\<lparr>blk_x = lxz AND 15, blk_y = push_bit 4 sy + (last_ly + dy),
                 blk_z = drop_bit 4 lxz, blk_state = st\<rparr>,
               (last_ly + dy, lxz, lid), r3)))))))"

fun decode_blocks ::
  "string list \<Rightarrow> int list \<Rightarrow> int \<Rightarrow> int \<Rightarrow> nat \<Rightarrow> BitReader \<Rightarrow> int \<times> int \<times> int
   \<Rightarrow> BlockChange list \<Rightarrow> error + (BlockChange list \<times> BitReader)" where
  "decode_blocks global_palette local_to_global palette_size sy 0 r prev blks = Inr (blks, r)"
| "decode_blocks global_palette local_to_global palette_size sy (Suc n) r prev blks =
     ebind (decode_block global_palette local_to_global palette_size sy r prev)
       (\<lambda>(b, prev', r').
          decode_blocks global_palette local_to_global palette_size sy n r' prev' (blks @ [b]))"

definition decode_micro_cube ::
  "BitReader \<Rightarrow> string list \<Rightarrow> int \<Rightarrow> int \<Rightarrow> int \<Rightarrow> int
   \<Rightarrow> error + (BlockChange list \<times> BitReader)" where
  "decode_micro_cube r global_palette mx my mz sy =
     ebind (read r 8) (\<lambda>(palette_size, r1).
       if palette_size = 0 then Inr ([], r1)
       else
         ebind (read_ids (nat palette_size) r1 []) (\<lambda>(local_to_global, r2).
         ebind (read r2 7) (\<lambda>(block_count, r3).
           decode_blocks global_palette local_to_global palette_size sy
             (nat block_count) r3 (0, 0, 0) [])))"

subsection \<open>decode\_chunk\<close>

record ChunkRecord =
  version :: int
  palette :: "string list"
  blocks :: "BlockChange list"
  be_count :: int

text \<open>
  Lines 49 to 74 of \<open>decode_chunk\<close>: the header, the global palette, the instruction
  bytes and the trailing count. \<open>Inr None\<close> is \<open>return None\<close>.
\<close>

definition parse_header ::
  "(int \<rightharpoonup> string) \<Rightarrow> bytes \<Rightarrow> error + (int \<times> string list \<times> bytes \<times> int) option" where
  "parse_header mapping s =
     (let magic_bytes = fst (stream_read 4 s); s1 = snd (stream_read 4 s)
      in if magic_bytes = [] then Inr None
         else
           ebind (unpack_be 4 magic_bytes) (\<lambda>magic.
             if magic \<noteq> 0x43495334 then Inr None
             else
               ebind (unpack_be 4 (fst (stream_read 4 s1))) (\<lambda>ver.
               ebind (unpack_be 4 (fst (stream_read 4 (snd (stream_read 4 s1))))) (\<lambda>palette_size.
               ebind (read_palette mapping (nat palette_size)
                        (snd (stream_read 4 (snd (stream_read 4 s1)))) []) (\<lambda>(global_palette, s4).
               ebind (unpack_be 4 (fst (stream_read 4 s4))) (\<lambda>inst_len.
                 let s5 = snd (stream_read 4 s4);
                     inst_data = fst (stream_read (nat inst_len) s5);
                     be_count_data = fst (stream_read 4 (snd (stream_read (nat inst_len) s5)))
                 in ebind (if be_count_data \<noteq> [] then unpack_be 4 be_count_data else Inr 0)
                      (\<lambda>bec. Inr (Some (ver, global_palette, inst_data, bec)))))))))"

text \<open>
  The three nested \<open>for\<close> loops over \<open>range(4)\<close> of one section. The micro-cube
  decoder is the method \<open>self.decode_micro_cube\<close>, looked up at each call; the loops
  take it as the parameter \<open>dmc\<close>.
\<close>

type_synonym cube_decoder =
  "BitReader \<Rightarrow> string list \<Rightarrow> int \<Rightarrow> int \<Rightarrow> int \<Rightarrow> int \<Rightarrow> error + (BlockChange list \<times> BitReader)"

fun loop_mx ::
  "cube_decoder \<Rightarrow> string list \<Rightarrow> int \<Rightarrow> int \<Rightarrow> int \<Rightarrow> int list \<Rightarrow> BitReader
   \<Rightarrow> BlockChange list \<Rightarrow> error + (BlockChange list \<times> BitReader)" where
  "loop_mx dmc global_palette sy my mz [] r all_blocks = Inr (all_blocks, r)"
| "loop_mx dmc global_palette sy my mz (mx # mxs) r all_blocks =
     ebind (dmc r global_palette mx my mz sy) (\<lambda>(res, r').
       loop_mx dmc global_palette sy my mz mxs r' (all_blocks @ res))"

fun loop_mz ::
  "cube_decoder \<Rightarrow> string list \<Rightarrow> int \<Rightarrow> int \<Rightarrow> int list \<Rightarrow> BitReader
   \<Rightarrow> BlockChange list \<Rightarrow> error + (BlockChange list \<times> BitReader)" where
  "loop_mz dmc global_palette sy my [] r all_blocks = Inr (all_blocks, r)"
| "loop_mz dmc global_palette sy my (mz # mzs) r all_blocks =
     ebind (loop_mx dmc global_palette sy my mz [0, 1, 2, 3] r all_blocks) (\<lambda>(all_blocks', r').
       loop_mz dmc global_palette sy my mzs r' all_blocks')"

fun loop_my ::
  "cube_decoder \<Rightarrow> string list \<Rightarrow> int \<Rightarrow> int list \<Rightarrow> BitReader
   \<Rightarrow> BlockChange list \<Rightarrow> error + (BlockChange list \<times> BitReader)" where
  "loop_my dmc global_palette sy [] r all_blocks = Inr (all_blocks, r)"
| "loop_my dmc global_palette sy (my # mys) r all_blocks =
     ebind (loop_mz dmc global_palette sy my [0, 1, 2, 3] r all_blocks) (\<lambda>(all_blocks', r').
       loop_my dmc global_palette sy mys r' all_blocks')"

text \<open>\<open>for _ in range(section_count)\<close>\<close>

fun loop_sections ::
  "cube_decoder \<Rightarrow> string list \<Rightarrow> nat \<Rightarrow> BitReader \<Rightarrow> BlockChange list
   \<Rightarrow> error + (BlockChange list \<times> BitReader)" where
  "loop_sections dmc global_palette 0 r all_blocks = Inr (all_blocks, r)"
| "loop_sections dmc global_palette (Suc n) r all_blocks =
     ebind (read_zigzag r 16) (\<lambda>(sy, r1).
     ebind (loop_my dmc global_palette sy [0, 1, 2, 3] r1 all_blocks) (\<lambda>(all_blocks', r2).
       loop_sections dmc global_palette n r2 all_blocks'))"

text \<open>Lines 77 to 87: the instruction stream is decoded by a fresh reader.\<close>

definition decode_instructions ::
  "cube_decoder \<Rightarrow> string list \<Rightarrow> bytes \<Rightarrow> error + BlockChange list" where
  "decode_instructions dmc global_palette inst_data =
     ebind (read (BitReader_init inst_data) 16) (\<lambda>(section_count, reader).
     ebind (loop_sections dmc global_palette (nat section_count) reader [])
       (\<lambda>(all_blocks, reader'). Inr all_blocks))"

definition decode_chunk_with ::
  "cube_decoder \<Rightarrow> (int \<rightharpoonup> string) \<Rightarrow> bytes \<Rightarrow> error + ChunkRecord option" where
  "decode_chunk_with dmc mapping s =
     ebind (parse_header mapping s) (\<lambda>h.
       case h of
         None \<Rightarrow> Inr None
       | Some (ver, global_palette, inst_data, bec) \<Rightarrow>
           ebind (decode_instructions dmc global_palette inst_data) (\<lambda>all_blocks.
             Inr (Some \<lparr>version = ver, palette = global_palette,
                        blocks = all_blocks, be_count = bec\<rparr>)))"

definition decode_chunk :: "(int \<rightharpoonup> string) \<Rightarrow> bytes \<Rightarrow> error + ChunkRecord option" where
  "decode_chunk mapping s = decode_chunk_with decode_micro_cube mapping s"

subsection \<open>parse\_region\<close>

text \<open>
  The region file is its bytes; \<open>f.seek(off); f.read(length)\<close> is \<open>file_read\<close>.
  \<open>zlib.decompress\<close> is outside the repository: it is the parameter \<open>dz\<close>, which
  returns the decompressed bytes or raises. The list of decoded chunks is
  \<open>self.chunks\<close>; the tree view of the window is not modelled.
\<close>

definition file_read :: "bytes \<Rightarrow> int \<Rightarrow> int \<Rightarrow> bytes" where
  "file_read f off len = take (nat len) (drop (nat off) f)"

text \<open>\<open>struct.unpack(">II", header[i*8:i*8+8])\<close>\<close>

definition unpack_entry :: "bytes \<Rightarrow> nat \<Rightarrow> error + (int \<times> int)" where
  "unpack_entry header i =
     (let bs = take 8 (drop (i * 8) header)
      in if length bs = 8 then Inr (be_int (take 4 bs), be_int (drop 4 bs))
         else Inl StructError)"

text \<open>
  The body of the \<open>try\<close> statement for slot \<open>i\<close>, on the bytes read for it: the
  chunks list afterwards. \<open>except: pass\<close> leaves it as it is.
\<close>

definition try_slot ::
  "(bytes \<Rightarrow> error + bytes) \<Rightarrow> (int \<rightharpoonup> string) \<Rightarrow> nat \<Rightarrow> bytes
   \<Rightarrow> ((int \<times> int) \<times> ChunkRecord) list \<Rightarrow> ((int \<times> int) \<times> ChunkRecord) list" where
  "try_slot dz mapping i slot_data chunks =
     (case ebind (dz slot_data) (\<lambda>decompressed. decode_chunk mapping decompressed) of
        Inl e \<Rightarrow> chunks
      | Inr None \<Rightarrow> chunks
      | Inr (Some chunk_data) \<Rightarrow> chunks @ [((int (i mod 16), int (i div 16)), chunk_data)])"

fun region_loop ::
  "(bytes \<Rightarrow> error + bytes) \<Rightarrow> (int \<rightharpoonup> string) \<Rightarrow> bytes \<Rightarrow> bytes \<Rightarrow> nat list
   \<Rightarrow> ((int \<times> int) \<times> ChunkRecord) list \<Rightarrow> error + ((int \<times> int) \<times> ChunkRecord) list" where
  "region_loop dz mapping f header [] chunks = Inr chunks"
| "region_loop dz mapping f header (i # rest) chunks =
     ebind (unpack_entry header i) (\<lambda>(off, len).
       region_loop dz mapping f header rest
         (if off > 0 \<and> len > 0
          then try_slot dz mapping i (file_read f off len) chunks
          else chunks))"

definition parse_region ::
  "(bytes \<Rightarrow> error + bytes) \<Rightarrow> (int \<rightharpoonup> string) \<Rightarrow> bytes \<Rightarrow> bytes
   \<Rightarrow> error + ((int \<times> int) \<times> ChunkRecord) list" where
  "parse_region dz mapping f header = region_loop dz mapping f header [0..<256] []"

section \<open>What the specification says, and inputs to run the decoder on\<close>

text \<open>The four bytes of the magic \<open>0x43495334\<close>, "CIS4".\<close>

definition magic4 :: bytes where
  "magic4 = [0x43, 0x49, 0x53, 0x34]"



text \<open>
  The 64 micro-cubes of a section in the order of the specification: major-Y
  outermost, then major-Z, then major-X. \<open>run_cubes\<close> calls the micro-cube decoder
  on a list of coordinates, one after the other on the same reader, and concatenates
  what the calls return; \<open>run_sections\<close> does so for each section after reading
  its 16-bit zigzag \<open>section_y\<close>.
\<close>

definition cube_order :: "(int \<times> int \<times> int) list" where
  "cube_order = [(mx, my, mz). my \<leftarrow> [0, 1, 2, 3], mz \<leftarrow> [0, 1, 2, 3], mx \<leftarrow> [0, 1, 2, 3]]"

fun run_cubes ::
  "cube_decoder \<Rightarrow> string list \<Rightarrow> int \<Rightarrow> (int \<times> int \<times> int) list \<Rightarrow> BitReader
   \<Rightarrow> error + (BlockChange list \<times> BitReader)" where
  "run_cubes dmc global_palette section_y [] r = Inr ([], r)"
| "run_cubes dmc global_palette section_y (c # cs) r =
     (case c of (mx, my, mz) \<Rightarrow>
        ebind (dmc r global_palette mx my mz section_y) (\<lambda>(res, r1).
        ebind (run_cubes dmc global_palette section_y cs r1) (\<lambda>(more, r2).
          Inr (res @ more, r2))))"

fun run_sections ::
  "cube_decoder \<Rightarrow> string list \<Rightarrow> nat \<Rightarrow> BitReader
   \<Rightarrow> error + (BlockChange list \<times> BitReader)" where
  "run_sections dmc global_palette 0 r = Inr ([], r)"
| "run_sections dmc global_palette (Suc n) r =
     ebind (read_zigzag r 16) (\<lambda>(section_y, r1).
     ebind (run_cubes dmc global_palette section_y cube_order r1) (\<lambda>(res, r2).
     ebind (run_sections dmc global_palette n r2) (\<lambda>(more, r3).
       Inr (res @ more, r3))))"

text \<open>
  One slot of a region on its own: the bytes the offset table gives it, the chunks it
  yields (none when the slot is unused, when decompression fails or when the chunk
  does not decode) and its entries of the chunks list.
\<close>

definition slot_bytes :: "bytes \<Rightarrow> bytes \<Rightarrow> nat \<Rightarrow> bytes" where
  "slot_bytes f header i =
     (case unpack_entry header i of Inl e \<Rightarrow> [] | Inr (off, len) \<Rightarrow> file_read f off len)"

definition slot_pos :: "nat \<Rightarrow> int \<times> int" where
  "slot_pos i = (int (i mod 16), int (i div 16))"

definition slot_chunks ::
  "(bytes \<Rightarrow> error + bytes) \<Rightarrow> (int \<rightharpoonup> string) \<Rightarrow> bytes \<Rightarrow> bytes \<Rightarrow> nat
   \<Rightarrow> ChunkRecord list" where
  "slot_chunks dz mapping f header i =
     (case unpack_entry header i of
        Inl e \<Rightarrow> []
      | Inr (off, len) \<Rightarrow>
          if off > 0 \<and> len > 0 then
            (case dz (slot_bytes f header i) of
               Inl e \<Rightarrow> []
             | Inr decompressed \<Rightarrow>
                 (case decode_chunk mapping decompressed of
                    Inl e \<Rightarrow> []
                  | Inr None \<Rightarrow> []
                  | Inr (Some chunk_data) \<Rightarrow> [chunk_data]))
          else [])"

definition slot_result ::
  "(bytes \<Rightarrow> error + bytes) \<Rightarrow> (int \<rightharpoonup> string) \<Rightarrow> bytes \<Rightarrow> bytes \<Rightarrow> nat
   \<Rightarrow> ((int \<times> int) \<times> ChunkRecord) list" where
  "slot_result dz mapping f header i =
     map (\<lambda>chunk_data. (slot_pos i, chunk_data)) (slot_chunks dz mapping f header i)"

text \<open>
  Inputs. The mapping and the chunk are the example of the specification: one section
  with \<open>section_y = 0\<close>, whose first micro-cube has one block at (3, 5, 7) of global
  id 0, which is mapping id 42 facing north. \<open>bad_local_id_chunk\<close> has a micro-cube
  with a local palette of three entries and a block record that selects local id 3.
  \<open>single_cube\<close> is the first micro-cube of the example on its own.
  \<open>three_cube\<close> is a micro-cube with the local palette 0, 1, 2 and two block
  records that select the local ids 2 and 1.
  \<open>bad_global_id_chunk\<close> has an empty global palette and a micro-cube whose
  one local palette entry is global id 5.
  \<open>toy_inflate\<close> stands for a decompressor where one is run: it accepts the bytes
  after a first byte \<open>0x78\<close> and raises on anything else. \<open>region_file\<close> is a
  region whose slots 0 and 1 each hold the chunk \<open>tiny_chunk\<close> (no palette, no
  section) behind the byte \<open>0x78\<close>, at offsets 2048 and 2071; \<open>corrupt_file\<close> is
  the same file with the first byte of slot 0 changed.
\<close>

definition example_mapping :: "int \<rightharpoonup> string" where
  "example_mapping = [42 \<mapsto> ''stone_stairs'']"

definition example_inst :: bytes where
  "example_inst = [0, 1, 0, 0, 1, 0, 0, 0x03, 0x2A, 0xE6] @ replicate 63 0"

definition example_chunk :: bytes where
  "example_chunk =
     magic4 @ [0, 0, 0, 1] @ [0, 0, 0, 1] @ [0, 42, 2] @ [0, 0, 0, 73] @ example_inst @ [0, 0, 0, 0]"



definition bad_local_id_chunk :: bytes where
  "bad_local_id_chunk =
     [0x43, 0x49, 0x53, 0x34,  0, 0, 0, 1,  0, 0, 0, 0,  0, 0, 0, 13,
      0, 1,  0, 0,  3,  0, 0,  0, 0,  0, 0,  0x02, 0x70,
      0, 0, 0, 0]"

definition toy_inflate :: "bytes \<Rightarrow> error + bytes" where
  "toy_inflate d = (case d of [] \<Rightarrow> Inl ZlibError
                    | b # rest \<Rightarrow> if b = 0x78 then Inr rest else Inl ZlibError)"

definition region_header :: bytes where
  "region_header = [0, 0, 8, 0,  0, 0, 0, 23,  0, 0, 8, 23,  0, 0, 0, 23] @ replicate 2032 0"

definition tiny_chunk :: bytes where
  "tiny_chunk = magic4 @ [0, 0, 0, 1] @ [0, 0, 0, 0] @ [0, 0, 0, 2] @ [0, 0] @ [0, 0, 0, 0]"

definition region_file :: bytes where
  "region_file = region_header @ (0x78 # tiny_chunk) @ (0x78 # tiny_chunk)"

definition corrupt_file :: bytes where
  "corrupt_file = region_header @ (0xFF # tiny_chunk) @ (0x78 # tiny_chunk)"

definition bad_global_id_chunk :: bytes where
  "bad_global_id_chunk =
     magic4 @ [0, 0, 0, 1] @ [0, 0, 0, 0] @ [0, 0, 0, 10] @
     [0, 1, 0, 0, 1, 0, 5, 0x03, 0x2A, 0xE6] @ [0, 0, 0, 0]"

section \<open>Properties of the bit reader\<close>

lemma advance_data [simp]: "data (advance r t) = data r"
  by (simp add: advance_def Let_def)

lemma advance_cursor_ok:
  "cursor_ok r \<Longrightarrow> 0 \<le> t \<Longrightarrow> t \<le> 8 - bit_index r \<Longrightarrow> cursor_ok (advance r t)"
  by (auto simp: cursor_ok_def advance_def Let_def)

lemma advance_bit_pos:
  "bit_pos (advance r t) = bit_pos r + t"
  by (auto simp: bit_pos_def advance_def Let_def)

lemma take_bits_bounds:
  "cursor_ok r \<Longrightarrow> 0 < bits \<Longrightarrow> 0 < take_bits r bits \<and> take_bits r bits \<le> 8 - bit_index r \<and> take_bits r bits \<le> bits"
  by (auto simp: cursor_ok_def take_bits_def)

lemma read_loop_done: "bits \<le> 0 \<Longrightarrow> read_loop r bits res = Inr (res, r)"
  by (subst read_loop.simps) simp

lemma read_loop_eof:
  "0 < bits \<Longrightarrow> length (data r) \<le> byte_index r \<Longrightarrow>
   read_loop r bits res = Inr (push_bit (nat bits) res, r)"
  by (subst read_loop.simps) simp

lemma read_loop_step:
  "0 < bits \<Longrightarrow> byte_index r < length (data r) \<Longrightarrow> cursor_ok r \<Longrightarrow>
   read_loop r bits res =
     read_loop (advance r (take_bits r bits)) (bits - take_bits r bits)
       (push_bit (nat (take_bits r bits)) res OR chunk_bits r (take_bits r bits))"
  using take_bits_bounds [of r bits] by (subst read_loop.simps) simp

lemma chunk_bits_range: "0 \<le> t \<Longrightarrow> 0 \<le> chunk_bits r t \<and> chunk_bits r t < 2 ^ nat t"
proof -
  assume "0 \<le> t"
  have m: "push_bit (nat t) (1::int) - 1 = mask (nat t)"
    by (simp add: mask_eq_exp_minus_1 push_bit_eq_mult)
  show ?thesis
    unfolding chunk_bits_def m
    by (simp flip: take_bit_eq_mask)
qed

lemma read_loop_value:
  "cursor_ok r \<Longrightarrow> 0 \<le> res \<Longrightarrow> res < 2 ^ k \<Longrightarrow> 0 \<le> bits \<Longrightarrow>
   read_loop r bits res = Inr (v, r') \<Longrightarrow> 0 \<le> v \<and> v < 2 ^ (k + nat bits)"
proof (induction r bits res arbitrary: k rule: read_loop.induct)
  case (1 r bits result)
  show ?case
  proof (cases "0 < bits")
    case False
    with "1.prems" show ?thesis by (simp add: read_loop_done)
  next
    case pos: True
    show ?thesis
    proof (cases "byte_index r < length (data r)")
      case False
      with pos "1.prems" have v: "v = push_bit (nat bits) result"
        by (simp add: read_loop_eof)
      have "result * 2 ^ nat bits < 2 ^ k * 2 ^ nat bits"
        using "1.prems"(3) by simp
      with "1.prems"(2) show ?thesis
        by (simp add: v push_bit_eq_mult power_add)
    next
      case inb: True
      define t where "t = take_bits r bits"
      from take_bits_bounds [OF "1.prems"(1) pos]
      have tb: "0 < t" "t \<le> 8 - bit_index r" "t \<le> bits" by (auto simp: t_def)
      define res' where "res' = push_bit (nat t) result OR chunk_bits r t"
      have c: "0 \<le> chunk_bits r t" "chunk_bits r t < 2 ^ nat t"
        using chunk_bits_range [of t r] tb by auto
      have "result * 2 ^ nat t < 2 ^ k * 2 ^ nat t"
        using "1.prems"(3) by simp
      then have p: "0 \<le> push_bit (nat t) result" "push_bit (nat t) result < 2 ^ (k + nat t)"
        using "1.prems"(2) by (simp_all add: push_bit_eq_mult power_add)
      have "chunk_bits r t < 2 ^ (k + nat t)"
        using c(2) by (smt (verit) le_add2 power_increasing)
      with p c have r1: "0 \<le> res'" "res' < 2 ^ (k + nat t)"
        by (simp_all add: res'_def OR_upper)
      have ok': "cursor_ok (advance r t)"
        using advance_cursor_ok "1.prems"(1) tb by simp
      have eq: "read_loop (advance r t) (bits - t) res' = Inr (v, r')"
        using "1.prems"(5) read_loop_step [OF pos inb "1.prems"(1), of result]
        by (simp add: t_def res'_def)
      have "0 \<le> v \<and> v < 2 ^ ((k + nat t) + nat (bits - t))"
        using "1.IH" [OF pos _ _ ok' [unfolded t_def] _ _ _ eq [unfolded t_def res'_def], of "k + nat t"]
          inb tb r1 by (simp add: t_def res'_def)
      moreover have "(k + nat t) + nat (bits - t) = k + nat bits"
        using tb by simp
      ultimately show ?thesis by simp
    qed
  qed
qed

lemma read_loop_total:
  "cursor_ok r \<Longrightarrow>
   \<exists>v r'. read_loop r bits res = Inr (v, r') \<and> cursor_ok r' \<and> data r' = data r \<and> bit_pos r \<le> bit_pos r'"
proof (induction r bits res rule: read_loop.induct)
  case (1 r bits result)
  show ?case
  proof (cases "0 < bits \<and> byte_index r < length (data r)")
    case False
    with "1.prems" show ?thesis
      by (subst read_loop.simps) auto
  next
    case True
    then have pos: "0 < bits" and inb: "byte_index r < length (data r)" by auto
    from take_bits_bounds [OF "1.prems" pos]
    have tb: "0 < take_bits r bits" "take_bits r bits \<le> 8 - bit_index r" by auto
    have ok': "cursor_ok (advance r (take_bits r bits))"
      using advance_cursor_ok "1.prems" tb by simp
    from "1.IH" [OF pos _ _ ok'] inb tb
    obtain v r' where
      "read_loop (advance r (take_bits r bits)) (bits - take_bits r bits)
         (push_bit (nat (take_bits r bits)) result OR chunk_bits r (take_bits r bits)) = Inr (v, r')"
      "cursor_ok r'" "data r' = data r" "bit_pos (advance r (take_bits r bits)) \<le> bit_pos r'"
      by auto
    with pos inb tb show ?thesis
      by (subst read_loop.simps) (auto simp: advance_bit_pos)
  qed
qed

lemma advance_byte_index_mono: "byte_index r \<le> byte_index (advance r t)"
  by (simp add: advance_def Let_def)

lemma chunk_bits_zero: "data r ! byte_index r = 0 \<Longrightarrow> chunk_bits r t = 0"
  by (simp add: chunk_bits_def)

lemma read_loop_zeros:
  "cursor_ok r \<Longrightarrow> 0 \<le> bits \<Longrightarrow>
   (\<forall>i. byte_index r \<le> i \<and> i < length (data r) \<longrightarrow> data r ! i = 0) \<Longrightarrow>
   \<exists>r'. read_loop r bits res = Inr (push_bit (nat bits) res, r')"
proof (induction r bits res rule: read_loop.induct)
  case (1 r bits result)
  show ?case
  proof (cases "0 < bits \<and> byte_index r < length (data r)")
    case False
    with "1.prems" show ?thesis
      by (cases "0 < bits") (simp_all add: read_loop_done read_loop_eof)
  next
    case True
    then have pos: "0 < bits" and inb: "byte_index r < length (data r)" by auto
    define t where "t = take_bits r bits"
    from take_bits_bounds [OF "1.prems"(1) pos]
    have tb: "0 < t" "t \<le> 8 - bit_index r" "t \<le> bits" by (auto simp: t_def)
    have ok': "cursor_ok (advance r t)"
      using advance_cursor_ok "1.prems"(1) tb by simp
    have z: "chunk_bits r t = 0"
      using "1.prems"(3) inb by (simp add: chunk_bits_zero)
    have zs: "\<forall>i. byte_index (advance r t) \<le> i \<and> i < length (data (advance r t)) \<longrightarrow>
                data (advance r t) ! i = 0"
      using "1.prems"(3) advance_byte_index_mono [of r t] by (auto intro: order_trans)
    from "1.IH" [OF pos _ _ ok' [unfolded t_def] _ zs [unfolded t_def]] inb tb
    obtain r' where
      "read_loop (advance r t) (bits - t) (push_bit (nat t) result OR chunk_bits r t)
         = Inr (push_bit (nat (bits - t)) (push_bit (nat t) result OR chunk_bits r t), r')"
      by (auto simp: t_def)
    moreover have "nat (bits - t) + nat t = nat bits" using tb by simp
    ultimately show ?thesis
      using read_loop_step [OF pos inb "1.prems"(1), of result]
      by (simp add: t_def [symmetric] z push_bit_push_bit)
  qed
qed

lemma zero_padded_simps [simp]:
  "bit_index (zero_padded r k) = bit_index r"
  "byte_index (zero_padded r k) = byte_index r"
  "data (zero_padded r k) = data r @ replicate k 0"
  by (simp_all add: zero_padded_def)

lemma cursor_ok_zero_padded [simp]: "cursor_ok (zero_padded r k) = cursor_ok r"
  by (simp add: cursor_ok_def)

lemma take_bits_zero_padded [simp]: "take_bits (zero_padded r k) bits = take_bits r bits"
  by (simp add: take_bits_def)

lemma advance_zero_padded: "advance (zero_padded r k) t = zero_padded (advance r t) k"
  by (simp add: advance_def zero_padded_def Let_def)

lemma chunk_bits_zero_padded:
  "byte_index r < length (data r) \<Longrightarrow> chunk_bits (zero_padded r k) t = chunk_bits r t"
  by (simp add: chunk_bits_def nth_append)

lemma read_loop_zero_padded:
  "cursor_ok r \<Longrightarrow> 0 \<le> bits \<Longrightarrow> read_loop r bits res = Inr (v, r1) \<Longrightarrow>
   \<exists>r2. read_loop (zero_padded r k) bits res = Inr (v, r2)"
proof (induction r bits res rule: read_loop.induct)
  case (1 r bits result)
  show ?case
  proof (cases "0 < bits")
    case False
    with "1.prems" show ?thesis by (simp add: read_loop_done)
  next
    case pos: True
    show ?thesis
    proof (cases "byte_index r < length (data r)")
      case False
      with pos "1.prems" have v: "v = push_bit (nat bits) result"
        by (simp add: read_loop_eof)
      have "\<forall>i. byte_index (zero_padded r k) \<le> i \<and> i < length (data (zero_padded r k)) \<longrightarrow>
              data (zero_padded r k) ! i = 0"
        using False by (auto simp: nth_append)
      from read_loop_zeros [OF _ "1.prems"(2) this, of result] "1.prems"(1)
      show ?thesis by (simp add: v)
    next
      case inb: True
      define t where "t = take_bits r bits"
      from take_bits_bounds [OF "1.prems"(1) pos]
      have tb: "0 < t" "t \<le> 8 - bit_index r" "t \<le> bits" by (auto simp: t_def)
      have ok': "cursor_ok (advance r t)"
        using advance_cursor_ok "1.prems"(1) tb by simp
      have eq: "read_loop (advance r t) (bits - t)
                  (push_bit (nat t) result OR chunk_bits r t) = Inr (v, r1)"
        using "1.prems"(3) read_loop_step [OF pos inb "1.prems"(1), of result]
        by (simp add: t_def)
      from "1.IH" [OF pos _ _ ok' [unfolded t_def] _ eq [unfolded t_def]] inb tb
      obtain r2 where
        "read_loop (zero_padded (advance r t) k) (bits - t)
           (push_bit (nat t) result OR chunk_bits r t) = Inr (v, r2)"
        by (auto simp: t_def)
      moreover have inb': "byte_index (zero_padded r k) < length (data (zero_padded r k))"
        using inb by simp
      ultimately show ?thesis
        using read_loop_step [OF pos inb', of result] "1.prems"(1) inb
        by (simp add: t_def [symmetric] advance_zero_padded chunk_bits_zero_padded)
    qed
  qed
qed

lemma bits_left_advance: "bits_left (advance r t) = bits_left r - t"
  by (simp add: bits_left_def advance_bit_pos)

lemma bits_left_in_buffer:
  "cursor_ok r \<Longrightarrow> byte_index r < length (data r) \<Longrightarrow> 8 - bit_index r \<le> bits_left r"
  by (simp add: bits_left_def bit_pos_def cursor_ok_def)

lemma bits_left_at_end:
  "cursor_ok r \<Longrightarrow> length (data r) \<le> byte_index r \<Longrightarrow> 0 \<le> bits_left r \<Longrightarrow> bits_left r = 0"
  by (simp add: bits_left_def bit_pos_def cursor_ok_def)

lemma read_loop_short:
  "cursor_ok r \<Longrightarrow> 0 \<le> bits_left r \<Longrightarrow> bits_left r \<le> bits \<Longrightarrow>
   read_loop r (bits_left r) res = Inr (v0, r0) \<Longrightarrow>
   read_loop r bits res = Inr (push_bit (nat (bits - bits_left r)) v0, r0)"
proof (induction r bits res rule: read_loop.induct)
  case (1 r bits result)
  show ?case
  proof (cases "byte_index r < length (data r)")
    case False
    with "1.prems" have z: "bits_left r = 0" by (simp add: bits_left_at_end)
    with "1.prems" have "v0 = result" "r0 = r" by (simp_all add: read_loop_done)
    with z False "1.prems"(3) show ?thesis
      by (cases "0 < bits") (simp_all add: read_loop_done read_loop_eof)
  next
    case inb: True
    from bits_left_in_buffer [OF "1.prems"(1) inb] "1.prems"
    have rem: "8 - bit_index r \<le> bits_left r" "0 < bits_left r" "0 < bits"
      by (auto simp: cursor_ok_def)
    define t where "t = 8 - bit_index r"
    have t1: "take_bits r bits = t" and t2: "take_bits r (bits_left r) = t"
      using rem "1.prems"(3) by (simp_all add: take_bits_def t_def)
    have tpos: "0 < t" "t \<le> 8 - bit_index r"
      using "1.prems"(1) by (simp_all add: t_def cursor_ok_def)
    have ok': "cursor_ok (advance r t)"
      using advance_cursor_ok "1.prems"(1) tpos by simp
    have eq: "read_loop (advance r t) (bits_left (advance r t))
                (push_bit (nat t) result OR chunk_bits r t) = Inr (v0, r0)"
      using "1.prems"(4) read_loop_step [OF rem(2) inb "1.prems"(1), of result]
      by (simp add: t2 bits_left_advance)
    have "read_loop (advance r t) (bits - t) (push_bit (nat t) result OR chunk_bits r t)
            = Inr (push_bit (nat ((bits - t) - bits_left (advance r t))) v0, r0)"
      using "1.IH" [OF rem(3) _ _ ok' [folded t1] _ _ eq [folded t1]] inb tpos rem "1.prems"(3)
      by (simp add: t1 bits_left_advance)
    then show ?thesis
      using read_loop_step [OF rem(3) inb "1.prems"(1), of result]
      by (simp add: t1 bits_left_advance)
  qed
qed

lemma read_eq_loop: "read r n = read_loop r n 0"
  by (simp add: read_def read_loop_done)

text \<open>
  Claim C10. From a cursor with \<open>bit_index\<close> in [0, 8), \<open>read\<close> returns (it does
  not raise) with \<open>bit_index\<close> again in [0, 8), the absolute bit position
  \<open>byte_index * 8 + bit_index\<close> not decreased, and a value in [0, 2^n), for every
  width \<open>n\<close> and every buffer, also when the read runs past the end of the buffer
  (for \<open>n < 0\<close> the value is 0).
\<close>

theorem read_cursor_invariant:
  "cursor_ok r \<Longrightarrow>
   \<exists>v r'. read r n = Inr (v, r') \<and> cursor_ok r' \<and> bit_pos r \<le> bit_pos r'
            \<and> 0 \<le> v \<and> v < 2 ^ nat n"
proof -
  assume ok: "cursor_ok r"
  from read_loop_total [OF ok, of n 0] obtain v r' where
    rl: "read_loop r n 0 = Inr (v, r')" and inv: "cursor_ok r'" "bit_pos r \<le> bit_pos r'"
    by blast
  have "0 \<le> v \<and> v < 2 ^ nat n"
  proof (cases "0 \<le> n")
    case True
    from read_loop_value [OF ok _ _ True rl, of 0] show ?thesis by simp
  next
    case False
    with rl show ?thesis by (simp add: read_loop_done)
  qed
  with rl inv show ?thesis by (simp add: read_eq_loop)
qed

theorem read_cursor_invariant_witness:
  "cursor_ok (BitReader_init [0xA5, 0xFF]) \<and>
   (\<exists>v r'. read (BitReader_init [0xA5, 0xFF]) 20 = Inr (v, r') \<and> cursor_ok r'
      \<and> bit_pos (BitReader_init [0xA5, 0xFF]) \<le> bit_pos r' \<and> 0 \<le> v \<and> v < 2 ^ nat 20)"
proof -
  have h: "cursor_ok (BitReader_init [0xA5, 0xFF])"
    by (simp add: cursor_ok_def BitReader_init_def)
  from read_cursor_invariant [OF h, of 20] h show ?thesis by blast
qed

lemma stream_bits_split:
  "stream_bits d pos (a + b) = stream_bits d pos a * 2 ^ b + stream_bits d (pos + a) b"
  by (induction b) (simp_all add: algebra_simps)

lemma stream_bits_past_end: "8 * length d \<le> pos \<Longrightarrow> stream_bits d pos n = 0"
  by (induction n) (auto simp: bit_at_def)

lemma bit_at_zero_padded: "bit_at (d @ replicate k 0) j = bit_at d j"
  by (auto simp: bit_at_def nth_append)

lemma stream_bits_zero_padded: "stream_bits (d @ replicate k 0) pos n = stream_bits d pos n"
  by (induction n) (simp_all add: bit_at_zero_padded)

lemma stream_bits_range: "0 \<le> stream_bits d pos n \<and> stream_bits d pos n < 2 ^ n"
  by (induction n) auto

lemma push_bit_or_low:
  "0 \<le> c \<Longrightarrow> c < 2 ^ t \<Longrightarrow> push_bit t x OR c = x * 2 ^ t + (c :: int)"
proof -
  assume "0 \<le> c" "c < 2 ^ t"
  then have c: "take_bit t c = c" by (simp add: take_bit_int_eq_self)
  have "push_bit t x + take_bit t c = push_bit t x OR take_bit t c"
    by (rule disjunctive_add) (auto simp: bit_push_bit_iff bit_take_bit_iff)
  then show ?thesis by (simp add: c push_bit_eq_mult)
qed

lemma byte_bit: "s < 8 \<Longrightarrow> bit (uint (w :: 8 word) AND 255) s = bit w s"
proof -
  assume s: "s < 8"
  have h: "(255 :: int) = mask 8" by (simp add: mask_eq_exp_minus_1)
  show "bit (uint w AND 255) s = bit w s"
    unfolding h using s by (simp only: bit_and_iff bit_mask_iff bit_uint_iff) simp
qed

lemma chunk_bits_take_bit:
  "0 \<le> t \<Longrightarrow> chunk_bits r t =
     take_bit (nat t) (drop_bit (nat ((8 - bit_index r) - t)) (uint (data r ! byte_index r) AND 255))"
proof -
  assume "0 \<le> t"
  have m: "push_bit (nat t) (1::int) - 1 = mask (nat t)"
    by (simp add: mask_eq_exp_minus_1 push_bit_eq_mult)
  show ?thesis unfolding chunk_bits_def m by (simp add: take_bit_eq_mask)
qed

lemma chunk_bits_stream:
  "byte_index r < length (data r) \<Longrightarrow> cursor_ok r \<Longrightarrow> int t \<le> 8 - bit_index r \<Longrightarrow>
   chunk_bits r (int t) = stream_bits (data r) (nat (bit_pos r)) t"
proof (induction t)
  case 0
  then show ?case by (simp add: chunk_bits_take_bit)
next
  case (Suc t)
  define B where "B = uint (data r ! byte_index r) AND 255"
  define s where "s = nat ((8 - bit_index r) - int (Suc t))"
  have bi: "0 \<le> bit_index r" "bit_index r < 8" using Suc.prems(2) by (simp_all add: cursor_ok_def)
  have s1: "nat ((8 - bit_index r) - int t) = Suc s" using Suc.prems(3) by (simp add: s_def)
  have s8: "s < 8" using bi Suc.prems(3) by (simp add: s_def)
  have ih: "take_bit t (drop_bit (Suc s) B) = stream_bits (data r) (nat (bit_pos r)) t"
    using Suc.IH Suc.prems by (simp add: chunk_bits_take_bit s1 B_def)
  have pos: "nat (bit_pos r) = 8 * byte_index r + nat (bit_index r)"
    using bi by (simp add: bit_pos_def nat_add_distrib nat_mult_distrib)
  have lt: "nat (bit_index r) + t < 8" using bi Suc.prems(3) by simp
  have dv: "(nat (bit_pos r) + t) div 8 = byte_index r"
    and md: "(nat (bit_pos r) + t) mod 8 = nat (bit_index r) + t"
    using lt by (simp_all add: pos add.assoc)
  have "7 - (nat (bit_index r) + t) = s" using bi Suc.prems(3) by (simp add: s_def)
  then have ba: "bit_at (data r) (nat (bit_pos r) + t) = bit B s"
    using Suc.prems(1) s8 by (simp add: bit_at_def dv md B_def byte_bit)
  have "chunk_bits r (int (Suc t)) =
          take_bit (nat (int (Suc t)))
            (drop_bit (nat ((8 - bit_index r) - int (Suc t)))
               (uint (data r ! byte_index r) AND 255))"
    by (rule chunk_bits_take_bit) simp
  then have "chunk_bits r (int (Suc t)) = take_bit (Suc t) (drop_bit s B)"
    by (simp only: s_def B_def nat_int)
  also have "\<dots> = take_bit t (drop_bit s B div 2) * 2 + drop_bit s B mod 2"
    by (simp add: take_bit_Suc)
  also have "drop_bit s B div 2 = drop_bit (Suc s) B"
    by (simp add: drop_bit_Suc drop_bit_half)
  also have "drop_bit s B mod 2 = of_bool (bit B s)"
    by (simp add: bit_iff_odd_drop_bit mod_2_eq_odd)
  finally show ?case by (simp add: ih ba)
qed

lemma bit_pos_nonneg: "cursor_ok r \<Longrightarrow> 0 \<le> bit_pos r"
  by (simp add: bit_pos_def cursor_ok_def)

lemma read_loop_stream:
  "cursor_ok r \<Longrightarrow> 0 \<le> bits \<Longrightarrow>
   \<exists>r'. read_loop r bits res =
          Inr (res * 2 ^ nat bits + stream_bits (data r) (nat (bit_pos r)) (nat bits), r')"
proof (induction r bits res rule: read_loop.induct)
  case (1 r bits result)
  show ?case
  proof (cases "0 < bits")
    case False
    with "1.prems" show ?thesis by (simp add: read_loop_done)
  next
    case pos: True
    show ?thesis
    proof (cases "byte_index r < length (data r)")
      case False
      then have "8 * length (data r) \<le> nat (bit_pos r)"
        using "1.prems"(1) unfolding bit_pos_def cursor_ok_def by linarith
      then have "stream_bits (data r) (nat (bit_pos r)) (nat bits) = 0"
        by (rule stream_bits_past_end)
      with False pos show ?thesis
        by (simp add: read_loop_eof push_bit_eq_mult)
    next
      case inb: True
      define t where "t = take_bits r bits"
      from take_bits_bounds [OF "1.prems"(1) pos]
      have tb: "0 < t" "t \<le> 8 - bit_index r" "t \<le> bits" by (auto simp: t_def)
      have ok': "cursor_ok (advance r t)"
        using advance_cursor_ok "1.prems"(1) tb by simp
      have ch: "chunk_bits r t = stream_bits (data r) (nat (bit_pos r)) (nat t)"
        using chunk_bits_stream [OF inb "1.prems"(1), of "nat t"] tb by simp
      have res': "push_bit (nat t) result OR chunk_bits r t =
                  result * 2 ^ nat t + stream_bits (data r) (nat (bit_pos r)) (nat t)"
        unfolding ch using stream_bits_range [of "data r" "nat (bit_pos r)" "nat t"]
        by (intro push_bit_or_low) simp_all
      from "1.IH" [OF pos _ _ ok' [unfolded t_def]] inb tb
      obtain r' where
        "read_loop (advance r t) (bits - t) (push_bit (nat t) result OR chunk_bits r t) =
           Inr ((push_bit (nat t) result OR chunk_bits r t) * 2 ^ nat (bits - t)
                + stream_bits (data r) (nat (bit_pos (advance r t))) (nat (bits - t)), r')"
        by (auto simp: t_def)
      moreover have "nat (bit_pos (advance r t)) = nat (bit_pos r) + nat t"
        using tb bit_pos_nonneg [OF "1.prems"(1)] by (simp add: advance_bit_pos nat_add_distrib)
      moreover have "nat bits = nat t + nat (bits - t)" using tb by simp
      ultimately show ?thesis
        using read_loop_step [OF pos inb "1.prems"(1), of result]
        by (simp add: t_def [symmetric] res' stream_bits_split power_add algebra_simps)
    qed
  qed
qed


lemma bit_pos_zero_padded [simp]: "bit_pos (zero_padded r k) = bit_pos r"
  by (simp add: bit_pos_def)

lemma read_stream:
  "cursor_ok r \<Longrightarrow>
   \<exists>r'. read r n = Inr (stream_bits (data r) (nat (bit_pos r)) (nat n), r')"
proof (cases "0 \<le> n")
  case True
  assume "cursor_ok r"
  from read_loop_stream [OF this True, of 0] show ?thesis by (simp add: read_eq_loop)
next
  case False
  then show ?thesis by (simp add: read_eq_loop read_loop_done)
qed

text \<open>
  Claim C3. From a cursor with \<open>bit_index\<close> in [0, 8), \<open>read r n\<close> never raises, and
  its value is the number written by the \<open>n\<close> bits of the stream from the cursor on,
  where every bit past the end of the buffer is 0. It is the value of the same read
  on the buffer extended with any number \<open>k\<close> of zero bytes. When fewer than \<open>n\<close>
  bits are left, the value is the number written by the bits that are left, shifted
  left by the number of missing bits.
\<close>

theorem read_past_end_zero_fill:
  "cursor_ok r \<Longrightarrow>
   (\<exists>r1 r2. read r n = Inr (stream_bits (data r) (nat (bit_pos r)) (nat n), r1) \<and>
      read (zero_padded r k) n = Inr (stream_bits (data r) (nat (bit_pos r)) (nat n), r2)) \<and>
   stream_bits (data r @ replicate k 0) (nat (bit_pos r)) (nat n)
     = stream_bits (data r) (nat (bit_pos r)) (nat n) \<and>
   (0 \<le> bits_left r \<and> bits_left r < n \<longrightarrow>
      (\<exists>r0. read r (bits_left r)
               = Inr (stream_bits (data r) (nat (bit_pos r)) (nat (bits_left r)), r0) \<and>
         read r n = Inr (push_bit (nat (n - bits_left r))
                           (stream_bits (data r) (nat (bit_pos r)) (nat (bits_left r))), r0)))"
proof (intro conjI impI)
  assume ok: "cursor_ok r"
  from read_stream [OF ok, of n] obtain r1 where
    a: "read r n = Inr (stream_bits (data r) (nat (bit_pos r)) (nat n), r1)" by blast
  have "cursor_ok (zero_padded r k)" using ok by simp
  from read_stream [OF this, of n] obtain r2 where
    "read (zero_padded r k) n = Inr (stream_bits (data r) (nat (bit_pos r)) (nat n), r2)"
    by (auto simp: stream_bits_zero_padded)
  with a show "\<exists>r1 r2. read r n = Inr (stream_bits (data r) (nat (bit_pos r)) (nat n), r1) \<and>
      read (zero_padded r k) n = Inr (stream_bits (data r) (nat (bit_pos r)) (nat n), r2)"
    by blast
next
  show "stream_bits (data r @ replicate k 0) (nat (bit_pos r)) (nat n)
     = stream_bits (data r) (nat (bit_pos r)) (nat n)"
    by (rule stream_bits_zero_padded)
next
  assume ok: "cursor_ok r" and short: "0 \<le> bits_left r \<and> bits_left r < n"
  from read_stream [OF ok, of "bits_left r"] obtain r0 where
    a: "read r (bits_left r)
          = Inr (stream_bits (data r) (nat (bit_pos r)) (nat (bits_left r)), r0)" by blast
  then have "read_loop r (bits_left r) 0
          = Inr (stream_bits (data r) (nat (bit_pos r)) (nat (bits_left r)), r0)"
    by (simp add: read_eq_loop)
  from read_loop_short [OF ok _ _ this, of n] short
  have "read r n = Inr (push_bit (nat (n - bits_left r))
                           (stream_bits (data r) (nat (bit_pos r)) (nat (bits_left r))), r0)"
    by (simp add: read_eq_loop)
  with a show "\<exists>r0. read r (bits_left r)
               = Inr (stream_bits (data r) (nat (bit_pos r)) (nat (bits_left r)), r0) \<and>
         read r n = Inr (push_bit (nat (n - bits_left r))
                           (stream_bits (data r) (nat (bit_pos r)) (nat (bits_left r))), r0)"
    by blast
qed

theorem read_past_end_zero_fill_witness:
  "cursor_ok (BitReader_init [0xA5, 0xFF]) \<and>
   bits_left (BitReader_init [0xA5, 0xFF]) = 16 \<and>
   stream_bits [0xA5, 0xFF] 0 20 = 0xA5FF0 \<and>
   stream_bits [0xA5, 0xFF, 0] 0 20 = 0xA5FF0 \<and>
   stream_bits [0xA5, 0xFF] 0 16 = 0xA5FF \<and>
   push_bit 4 (0xA5FF :: int) = 0xA5FF0 \<and>
   read (BitReader_init [0xA5, 0xFF]) 20
     = Inr (0xA5FF0, \<lparr>data = [0xA5, 0xFF], byte_index = 2, bit_index = 0\<rparr>) \<and>
   read (zero_padded (BitReader_init [0xA5, 0xFF]) 1) 20
     = Inr (0xA5FF0, \<lparr>data = [0xA5, 0xFF, 0], byte_index = 2, bit_index = 4\<rparr>) \<and>
   (\<exists>r1 r2. read (BitReader_init [0xA5, 0xFF]) 20 = Inr (stream_bits [0xA5, 0xFF] 0 20, r1) \<and>
      read (zero_padded (BitReader_init [0xA5, 0xFF]) 1) 20
        = Inr (stream_bits [0xA5, 0xFF] 0 20, r2)) \<and>
   (\<exists>r0. read (BitReader_init [0xA5, 0xFF]) 16 = Inr (stream_bits [0xA5, 0xFF] 0 16, r0) \<and>
      read (BitReader_init [0xA5, 0xFF]) 20
        = Inr (push_bit 4 (stream_bits [0xA5, 0xFF] 0 16), r0))"
proof -
  have h: "cursor_ok (BitReader_init [0xA5, 0xFF])"
    by (simp add: cursor_ok_def BitReader_init_def)
  have b: "bits_left (BitReader_init [0xA5, 0xFF]) = 16"
    and p: "nat (bit_pos (BitReader_init [0xA5, 0xFF])) = 0"
    and d: "data (BitReader_init [0xA5, 0xFF]) = [0xA5, 0xFF]"
    by (simp_all add: bits_left_def bit_pos_def BitReader_init_def)
  have s1: "stream_bits [0xA5, 0xFF] 0 20 = 0xA5FF0"
    and s2: "stream_bits [0xA5, 0xFF, 0] 0 20 = 0xA5FF0"
    and s3: "stream_bits [0xA5, 0xFF] 0 16 = 0xA5FF"
    by code_simp+
  have r1: "read (BitReader_init [0xA5, 0xFF]) 20
     = Inr (0xA5FF0, \<lparr>data = [0xA5, 0xFF], byte_index = 2, bit_index = 0\<rparr>)"
    by code_simp
  have r2: "read (zero_padded (BitReader_init [0xA5, 0xFF]) 1) 20
     = Inr (0xA5FF0, \<lparr>data = [0xA5, 0xFF, 0], byte_index = 2, bit_index = 4\<rparr>)"
    by code_simp
  from read_past_end_zero_fill [OF h, of 20 1]
  have "(\<exists>r1 r2. read (BitReader_init [0xA5, 0xFF]) 20 = Inr (stream_bits [0xA5, 0xFF] 0 20, r1) \<and>
      read (zero_padded (BitReader_init [0xA5, 0xFF]) 1) 20
        = Inr (stream_bits [0xA5, 0xFF] 0 20, r2))"
    and "(\<exists>r0. read (BitReader_init [0xA5, 0xFF]) 16 = Inr (stream_bits [0xA5, 0xFF] 0 16, r0) \<and>
      read (BitReader_init [0xA5, 0xFF]) 20
        = Inr (push_bit 4 (stream_bits [0xA5, 0xFF] 0 16), r0))"
    by (simp_all add: b p d)
  with h b s1 s2 s3 r1 r2 show ?thesis by (simp only: push_bit_eq_mult) simp
qed

lemma xor_minus_one: "(x::int) XOR - 1 = NOT x"
  by (rule bit_eqI) (simp add: bit_simps)

lemma zigzag_closed_form:
  "zigzag v = (if even v then v div 2 else - ((v + 1) div 2))"
proof (cases "even v")
  case True
  then show ?thesis by (simp add: zigzag_def and_one_eq drop_bit_eq_div)
next
  case False
  then have "v AND 1 = 1" by (simp add: and_one_eq odd_iff_mod_2_eq_one)
  then have "zigzag v = NOT (v div 2)"
    by (simp add: zigzag_def drop_bit_eq_div xor_minus_one)
  moreover have "- ((v + 1) div 2) = - (v div 2) - 1" using False by simp
  ultimately show ?thesis using False by (simp add: not_int_def)
qed

text \<open>
  Claim C4. \<open>read_zigzag\<close> reads the same bits as \<open>read\<close> and returns
  \<open>(v >> 1) ^ -(v & 1)\<close> of the value \<open>v\<close> read, which is \<open>v div 2\<close> for an even
  \<open>v\<close> and \<open>- ((v + 1) div 2)\<close> for an odd one. It sends 0, 1, 2, 3, 4, 5 to
  0, -1, 1, -2, 2, -3, one to one.
\<close>

theorem read_zigzag_decodes:
  "read_zigzag r bits =
     (case read r bits of Inl e \<Rightarrow> Inl e
      | Inr (v, r') \<Rightarrow> Inr (drop_bit 1 v XOR - (v AND 1), r')) \<and>
   drop_bit 1 w XOR - (w AND 1) = (if even w then w div 2 else - ((w + 1) div 2 :: int)) \<and>
   map zigzag [0, 1, 2, 3, 4, 5] = [0, -1, 1, -2, 2, -3] \<and>
   bij_betw zigzag {0, 1, 2, 3, 4, 5} {0, -1, 1, -2, 2, -3}"
proof (intro conjI)
  show "read_zigzag r bits =
     (case read r bits of Inl e \<Rightarrow> Inl e
      | Inr (v, r') \<Rightarrow> Inr (drop_bit 1 v XOR - (v AND 1), r'))"
    by (simp add: read_zigzag_def ebind_def zigzag_def split: sum.splits prod.splits)
  show "drop_bit 1 w XOR - (w AND 1) = (if even w then w div 2 else - ((w + 1) div 2 :: int))"
    using zigzag_closed_form [of w] by (simp only: zigzag_def)
  show m: "map zigzag [0, 1, 2, 3, 4, 5] = [0, -1, 1, -2, 2, -3]"
    by (simp add: zigzag_def)
  then show "bij_betw zigzag {0, 1, 2, 3, 4, 5} {0, -1, 1, -2, 2, -3}"
    by (simp add: bij_betw_def)
qed

section \<open>Properties of the chunk decoder\<close>

lemma be_int_magic4: "be_int magic4 = 0x43495334"
  by (simp add: be_int_def magic4_def)

lemma ebind_simps [simp]:
  "ebind (Inl e) f = Inl e"
  "ebind (Inr v) f = f v"
  by (simp_all add: ebind_def)

lemma decode_chunk_empty: "decode_chunk mapping [] = Inr None"
  by (simp add: decode_chunk_def decode_chunk_with_def parse_header_def stream_read_def)

lemma decode_chunk_wrong_magic:
  "4 \<le> length s \<Longrightarrow> be_int (take 4 s) \<noteq> 0x43495334 \<Longrightarrow> decode_chunk mapping s = Inr None"
  by (auto simp: decode_chunk_def decode_chunk_with_def parse_header_def stream_read_def
        unpack_be_def Let_def)

lemma read_palette_truncated:
  "length t < 3 * n \<Longrightarrow>
   read_palette mapping n t gp = Inl (if length t mod 3 = 2 then TypeError else StructError)"
proof (induction n arbitrary: t gp)
  case 0
  then show ?case by simp
next
  case (Suc n)
  show ?case
  proof (cases "length t < 2")
    case True
    then show ?thesis by (auto simp: stream_read_def unpack_be_def)
  next
    case False
    show ?thesis
    proof (cases "length t = 2")
      case True
      then show ?thesis
        by (simp add: stream_read_def unpack_be_def ord_byte_def)
    next
      case False
      with \<open>\<not> length t < 2\<close> have l3: "3 \<le> length t" by simp
      then obtain a b c u where t: "t = a # b # c # u"
        by (cases t; cases "tl t"; cases "tl (tl t)") auto
      have "length u < 3 * n" using Suc.prems by (simp add: t)
      from Suc.IH [OF this] show ?thesis
        by (simp add: t stream_read_def unpack_be_def ord_byte_def)
    qed
  qed
qed

lemma read_palette_complete:
  "length pal = 3 * n \<Longrightarrow> \<exists>gp'. read_palette mapping n (pal @ t) gp = Inr (gp', t)"
proof (induction n arbitrary: pal gp)
  case 0
  then show ?case by simp
next
  case (Suc n)
  then obtain a b c u where p: "pal = a # b # c # u"
    by (cases pal; cases "tl pal"; cases "tl (tl pal)") auto
  have "length u = 3 * n" using Suc.prems by (simp add: p)
  from Suc.IH [OF this] show ?case
    by (simp add: p stream_read_def unpack_be_def ord_byte_def)
qed

lemma length_magic4 [simp]: "length magic4 = 4"
  by (simp add: magic4_def)

lemma magic4_nonempty [simp]: "magic4 \<noteq> []"
  by (simp add: magic4_def)

lemma parse_header_short_magic:
  "0 < length s \<Longrightarrow> length s < 4 \<Longrightarrow> parse_header mapping s = Inl StructError"
  by (auto simp: parse_header_def stream_read_def unpack_be_def Let_def)

lemma parse_header_short_version:
  "length t < 4 \<Longrightarrow> parse_header mapping (magic4 @ t) = Inl StructError"
  by (simp add: parse_header_def stream_read_def unpack_be_def Let_def be_int_magic4)

lemma parse_header_short_palette_size:
  "length ver4 = 4 \<Longrightarrow> length t < 4 \<Longrightarrow>
   parse_header mapping (magic4 @ ver4 @ t) = Inl StructError"
  by (simp add: parse_header_def stream_read_def unpack_be_def Let_def be_int_magic4)

lemma unpack_be_exact: "length bs = k \<Longrightarrow> unpack_be k bs = Inr (be_int bs)"
  by (simp add: unpack_be_def)

lemma parse_header_palette:
  "length ver4 = 4 \<Longrightarrow> length psz4 = 4 \<Longrightarrow>
   parse_header mapping (magic4 @ ver4 @ psz4 @ t) =
     ebind (read_palette mapping (nat (be_int psz4)) t []) (\<lambda>(global_palette, s4).
     ebind (unpack_be 4 (take 4 s4)) (\<lambda>inst_len.
     ebind (if take 4 (drop (nat inst_len) (drop 4 s4)) \<noteq> []
            then unpack_be 4 (take 4 (drop (nat inst_len) (drop 4 s4))) else Inr 0)
       (\<lambda>bec. Inr (Some (be_int ver4, global_palette, take (nat inst_len) (drop 4 s4), bec)))))"
  by (simp add: parse_header_def stream_read_def unpack_be_exact Let_def be_int_magic4
        le_diff_conv)

lemma parse_header_short_palette:
  "length ver4 = 4 \<Longrightarrow> length psz4 = 4 \<Longrightarrow> length t < 3 * nat (be_int psz4) \<Longrightarrow>
   parse_header mapping (magic4 @ ver4 @ psz4 @ t) =
     Inl (if length t mod 3 = 2 then TypeError else StructError)"
  by (simp add: parse_header_palette read_palette_truncated)

lemma parse_header_after_palette:
  assumes "length ver4 = 4" "length psz4 = 4" "length pal = 3 * nat (be_int psz4)"
  shows "\<exists>gp. parse_header mapping (magic4 @ ver4 @ psz4 @ pal @ t) =
     ebind (unpack_be 4 (take 4 t)) (\<lambda>inst_len.
     ebind (if take 4 (drop (nat inst_len) (drop 4 t)) \<noteq> []
            then unpack_be 4 (take 4 (drop (nat inst_len) (drop 4 t))) else Inr 0)
       (\<lambda>bec. Inr (Some (be_int ver4, gp, take (nat inst_len) (drop 4 t), bec))))"
proof -
  from read_palette_complete [OF assms(3), of mapping t "[]"] obtain gp where
    "read_palette mapping (nat (be_int psz4)) (pal @ t) [] = Inr (gp, t)" by blast
  then show ?thesis
    by (intro exI [of _ gp]) (simp add: parse_header_palette assms)
qed

lemma parse_header_short_inst_len:
  assumes "length ver4 = 4" "length psz4 = 4" "length pal = 3 * nat (be_int psz4)"
    "length t < 4"
  shows "parse_header mapping (magic4 @ ver4 @ psz4 @ pal @ t) = Inl StructError"
  using parse_header_after_palette [OF assms(1-3), of mapping t] assms(4)
  by (auto simp: unpack_be_def)

lemma parse_header_short_be_count:
  assumes "length ver4 = 4" "length psz4 = 4" "length pal = 3 * nat (be_int psz4)"
    "length len4 = 4" "length inst = nat (be_int len4)" "0 < length t" "length t < 4"
  shows "parse_header mapping (magic4 @ ver4 @ psz4 @ pal @ len4 @ inst @ t) = Inl StructError"
  using parse_header_after_palette [OF assms(1-3), of mapping "len4 @ inst @ t"] assms(4-7)
  by (auto simp: unpack_be_def)

lemma parse_header_lenient:
  assumes "length ver4 = 4" "length psz4 = 4" "length pal = 3 * nat (be_int psz4)"
    "length len4 = 4" "length inst \<le> nat (be_int len4)"
  shows "\<exists>gp. parse_header mapping (magic4 @ ver4 @ psz4 @ pal @ len4 @ inst)
           = Inr (Some (be_int ver4, gp, inst, 0))"
  using parse_header_after_palette [OF assms(1-3), of mapping "len4 @ inst"] assms(4-5)
  by (auto simp: unpack_be_def)

lemma parse_header_be_count:
  assumes "length ver4 = 4" "length psz4 = 4" "length pal = 3 * nat (be_int psz4)"
    "length len4 = 4" "length inst = nat (be_int len4)" "4 \<le> length t"
  shows "\<exists>gp. parse_header mapping (magic4 @ ver4 @ psz4 @ pal @ len4 @ inst @ t)
           = Inr (Some (be_int ver4, gp, inst, be_int (take 4 t)))"
  using parse_header_after_palette [OF assms(1-3), of mapping "len4 @ inst @ t"] assms(4-6)
  by (auto simp: unpack_be_def)

lemma decode_chunk_header_error:
  "parse_header mapping s = Inl e \<Longrightarrow> decode_chunk mapping s = Inl e"
  by (simp add: decode_chunk_def decode_chunk_with_def)

text \<open>
  Claim C2, as the code has it. An empty stream yields \<open>None\<close>, and so does a stream
  whose first four bytes are read in full and differ from the magic: \<open>decode_chunk\<close>
  returns the same \<open>None\<close> in both cases, raises nothing and returns no record.
\<close>

theorem decode_chunk_wrong_magic_is_none:
  "(s = [] \<longrightarrow> decode_chunk mapping s = Inr None) \<and>
   (4 \<le> length s \<and> be_int (take 4 s) \<noteq> 0x43495334 \<longrightarrow> decode_chunk mapping s = Inr None)"
  by (simp add: decode_chunk_empty decode_chunk_wrong_magic)

theorem decode_chunk_wrong_magic_is_none_witness:
  "4 \<le> length [0, 0, 0, 0 :: 8 word] \<and> be_int (take 4 [0, 0, 0, 0]) \<noteq> 0x43495334 \<and>
   decode_chunk example_mapping [0, 0, 0, 0] = Inr None \<and>
   decode_chunk example_mapping [] = Inr None"
  using decode_chunk_wrong_magic_is_none [of "[0, 0, 0, 0]" example_mapping]
    decode_chunk_wrong_magic_is_none [of "[]" example_mapping]
  by (simp add: be_int_def)

text \<open>
  Claim C2 as stated fails: on the four bytes 0, 0, 0, 0 (a magic that is not
  \<open>0x43495334\<close>) \<open>decode_chunk\<close> does not raise; it returns \<open>None\<close>, which is
  what it returns on the empty stream.
\<close>

theorem wrong_magic_counterexample:
  "be_int [0, 0, 0, 0] \<noteq> 0x43495334 \<and>
   decode_chunk example_mapping [0, 0, 0, 0] = Inr None \<and>
   decode_chunk example_mapping [] = Inr None"
  by (simp add: decode_chunk_def decode_chunk_with_def parse_header_def stream_read_def
        unpack_be_def Let_def be_int_def)

text \<open>
  Claim C7. A payload with the magic, any version, \<open>palette_size = 0\<close>, and an
  instruction stream whose first 16 bits read as 0 decodes to a record with an empty
  palette, no blocks, and \<open>be_count\<close> the big-endian value of the four bytes after
  the instruction bytes, or 0 when the stream ends at that field (also when it ends
  inside the instruction bytes).
\<close>

theorem decode_chunk_no_sections:
  assumes "length ver4 = 4" and "length len4 = 4"
    and "length inst \<le> nat (be_int len4)"
    and "length inst < nat (be_int len4) \<longrightarrow> rest = []"
    and "rest = [] \<or> 4 \<le> length rest"
    and "read (BitReader_init inst) 16 = Inr (0, r')"
  shows "decode_chunk mapping (magic4 @ ver4 @ [0, 0, 0, 0] @ len4 @ inst @ rest) =
     Inr (Some \<lparr>version = be_int ver4, palette = [], blocks = [],
                be_count = (if rest = [] then 0 else be_int (take 4 rest))\<rparr>)"
proof -
  have z: "nat (be_int [0, 0, 0, 0]) = 0" by (simp add: be_int_def)
  have hdr: "parse_header mapping (magic4 @ ver4 @ [0, 0, 0, 0] @ len4 @ inst @ rest) =
     Inr (Some (be_int ver4, [], inst, (if rest = [] then 0 else be_int (take 4 rest))))"
  proof (cases "rest = []")
    case True
    with assms parse_header_palette [of ver4 "[0, 0, 0, 0]" mapping "len4 @ inst @ rest"]
    show ?thesis
      by (simp add: z unpack_be_exact)
  next
    case False
    with assms have "length inst = nat (be_int len4)" "4 \<le> length rest" by auto
    with assms False parse_header_palette [of ver4 "[0, 0, 0, 0]" mapping "len4 @ inst @ rest"]
    show ?thesis
      by (simp add: z unpack_be_exact)
  qed
  show ?thesis
    unfolding decode_chunk_def decode_chunk_with_def hdr
    by (simp add: decode_instructions_def assms(6))
qed

theorem decode_chunk_no_sections_witness:
  "length [0, 0, 0, 1 :: 8 word] = 4 \<and> length [0, 0, 0, 2 :: 8 word] = 4 \<and>
   length [0, 0 :: 8 word] \<le> nat (be_int [0, 0, 0, 2]) \<and>
   read (BitReader_init [0, 0]) 16 = Inr (0, \<lparr>data = [0, 0], byte_index = 2, bit_index = 0\<rparr>) \<and>
   decode_chunk example_mapping (magic4 @ [0, 0, 0, 1] @ [0, 0, 0, 0] @ [0, 0, 0, 2] @ [0, 0] @ [0, 0, 1, 7]) =
     Inr (Some \<lparr>version = 1, palette = [], blocks = [], be_count = 263\<rparr>) \<and>
   decode_chunk example_mapping (magic4 @ [0, 0, 0, 1] @ [0, 0, 0, 0] @ [0, 0, 0, 2] @ [0, 0] @ []) =
     Inr (Some \<lparr>version = 1, palette = [], blocks = [], be_count = 0\<rparr>) \<and>
   length [0, 0 :: 8 word] < nat (be_int [0, 0, 0, 9]) \<and>
   decode_chunk example_mapping (magic4 @ [0, 0, 0, 1] @ [0, 0, 0, 0] @ [0, 0, 0, 9] @ [0, 0] @ []) =
     Inr (Some \<lparr>version = 1, palette = [], blocks = [], be_count = 0\<rparr>)"
proof -
  have r: "read (BitReader_init [0, 0]) 16 = Inr (0, \<lparr>data = [0, 0], byte_index = 2, bit_index = 0\<rparr>)"
    by (simp add: read_def read_loop.simps BitReader_init_def take_bits_def chunk_bits_def
          advance_def)
  have l: "length [0, 0 :: 8 word] \<le> nat (be_int [0, 0, 0, 2])" by (simp add: be_int_def)
  have m: "length [0, 0 :: 8 word] \<le> nat (be_int [0, 0, 0, 9])"
    and n: "length [0, 0 :: 8 word] < nat (be_int [0, 0, 0, 9])" by (simp_all add: be_int_def)
  from decode_chunk_no_sections [OF _ _ l _ _ r, of "[0, 0, 0, 1]" "[0, 0, 1, 7]" example_mapping]
    decode_chunk_no_sections [OF _ _ l _ _ r, of "[0, 0, 0, 1]" "[]" example_mapping]
    decode_chunk_no_sections [OF _ _ m _ _ r, of "[0, 0, 0, 1]" "[]" example_mapping]
    r l n
  show ?thesis by (simp add: be_int_def)
qed

text \<open>
  Claim C9, as the code has it. A stream that ends inside the magic (after at least one
  byte), before or inside the version, the palette size, the palette or the
  instruction length, or 1 to 3 bytes into the trailing count, makes \<open>decode_chunk\<close>
  raise. The exception is struct.error, except when the stream ends exactly after the
  two bytes of a palette entry's mapping id: then it is the TypeError of \<open>ord\<close> on an
  empty read. A stream that ends at or inside the instruction bytes raises nothing in
  the header: the count is 0.
\<close>

theorem decode_chunk_truncated_header:
  "(0 < length s0 \<and> length s0 < 4 \<longrightarrow> decode_chunk mapping s0 = Inl StructError) \<and>
   (length t1 < 4 \<longrightarrow> decode_chunk mapping (magic4 @ t1) = Inl StructError) \<and>
   (length ver4 = 4 \<and> length t2 < 4 \<longrightarrow>
      decode_chunk mapping (magic4 @ ver4 @ t2) = Inl StructError) \<and>
   (length ver4 = 4 \<and> length psz4 = 4 \<and> length t3 < 3 * nat (be_int psz4) \<longrightarrow>
      decode_chunk mapping (magic4 @ ver4 @ psz4 @ t3) =
        Inl (if length t3 mod 3 = 2 then TypeError else StructError)) \<and>
   (length ver4 = 4 \<and> length psz4 = 4 \<and> length pal = 3 * nat (be_int psz4) \<and>
    length t4 < 4 \<longrightarrow>
      decode_chunk mapping (magic4 @ ver4 @ psz4 @ pal @ t4) = Inl StructError) \<and>
   (length ver4 = 4 \<and> length psz4 = 4 \<and> length pal = 3 * nat (be_int psz4) \<and>
    length len4 = 4 \<and> length inst = nat (be_int len4) \<and> 0 < length t5 \<and> length t5 < 4 \<longrightarrow>
      decode_chunk mapping (magic4 @ ver4 @ psz4 @ pal @ len4 @ inst @ t5) = Inl StructError) \<and>
   (length ver4 = 4 \<and> length psz4 = 4 \<and> length pal = 3 * nat (be_int psz4) \<and>
    length len4 = 4 \<and> length inst6 \<le> nat (be_int len4) \<longrightarrow>
      (\<exists>gp. parse_header mapping (magic4 @ ver4 @ psz4 @ pal @ len4 @ inst6) =
         Inr (Some (be_int ver4, gp, inst6, 0))))"
proof (intro conjI impI)
  assume "0 < length s0 \<and> length s0 < 4"
  then show "decode_chunk mapping s0 = Inl StructError"
    by (simp add: decode_chunk_header_error parse_header_short_magic)
next
  assume "length t1 < 4"
  then show "decode_chunk mapping (magic4 @ t1) = Inl StructError"
    by (simp add: decode_chunk_header_error parse_header_short_version)
next
  assume "length ver4 = 4 \<and> length t2 < 4"
  then show "decode_chunk mapping (magic4 @ ver4 @ t2) = Inl StructError"
    by (simp add: decode_chunk_header_error parse_header_short_palette_size)
next
  assume "length ver4 = 4 \<and> length psz4 = 4 \<and> length t3 < 3 * nat (be_int psz4)"
  then show "decode_chunk mapping (magic4 @ ver4 @ psz4 @ t3) =
        Inl (if length t3 mod 3 = 2 then TypeError else StructError)"
    by (intro decode_chunk_header_error parse_header_short_palette) simp_all
next
  assume "length ver4 = 4 \<and> length psz4 = 4 \<and> length pal = 3 * nat (be_int psz4) \<and>
    length t4 < 4"
  then show "decode_chunk mapping (magic4 @ ver4 @ psz4 @ pal @ t4) = Inl StructError"
    by (intro decode_chunk_header_error parse_header_short_inst_len) simp_all
next
  assume "length ver4 = 4 \<and> length psz4 = 4 \<and> length pal = 3 * nat (be_int psz4) \<and>
    length len4 = 4 \<and> length inst = nat (be_int len4) \<and> 0 < length t5 \<and> length t5 < 4"
  then show "decode_chunk mapping (magic4 @ ver4 @ psz4 @ pal @ len4 @ inst @ t5) = Inl StructError"
    by (intro decode_chunk_header_error parse_header_short_be_count) simp_all
next
  assume "length ver4 = 4 \<and> length psz4 = 4 \<and> length pal = 3 * nat (be_int psz4) \<and>
    length len4 = 4 \<and> length inst6 \<le> nat (be_int len4)"
  then show "\<exists>gp. parse_header mapping (magic4 @ ver4 @ psz4 @ pal @ len4 @ inst6) =
         Inr (Some (be_int ver4, gp, inst6, 0))"
    by (intro parse_header_lenient) simp_all
qed

theorem decode_chunk_truncated_header_witness:
  "decode_chunk example_mapping [0x43] = Inl StructError \<and>
   decode_chunk example_mapping (magic4 @ [0]) = Inl StructError \<and>
   decode_chunk example_mapping (magic4 @ [0, 0, 0, 1] @ [0, 0]) = Inl StructError \<and>
   length [0, 42 :: 8 word] < 3 * nat (be_int [0, 0, 0, 1]) \<and>
   decode_chunk example_mapping (magic4 @ [0, 0, 0, 1] @ [0, 0, 0, 1] @ [0, 42]) = Inl TypeError \<and>
   length [0, 42, 2 :: 8 word] = 3 * nat (be_int [0, 0, 0, 1]) \<and>
   decode_chunk example_mapping (magic4 @ [0, 0, 0, 1] @ [0, 0, 0, 1] @ [0, 42, 2] @ [0, 0, 0])
     = Inl StructError \<and>
   length [0, 0 :: 8 word] = nat (be_int [0, 0, 0, 2]) \<and>
   decode_chunk example_mapping
     (magic4 @ [0, 0, 0, 1] @ [0, 0, 0, 1] @ [0, 42, 2] @ [0, 0, 0, 2] @ [0, 0] @ [0, 0, 7])
     = Inl StructError \<and>
   (\<exists>gp. parse_header example_mapping
      (magic4 @ [0, 0, 0, 1] @ [0, 0, 0, 1] @ [0, 42, 2] @ [0, 0, 0, 2] @ [0])
     = Inr (Some (be_int [0, 0, 0, 1], gp, [0], 0)))"
proof -
  have a: "length [0, 42 :: 8 word] < 3 * nat (be_int [0, 0, 0, 1])"
    and b: "length [0, 42, 2 :: 8 word] = 3 * nat (be_int [0, 0, 0, 1])"
    and c: "length [0, 0 :: 8 word] = nat (be_int [0, 0, 0, 2])"
    and d: "length [0 :: 8 word] \<le> nat (be_int [0, 0, 0, 2])"
    by (simp_all add: be_int_def)
  from decode_chunk_truncated_header [of "[0x43]" example_mapping "[0]" "[0, 0, 0, 1]" "[0, 0]"
      "[0, 0, 0, 1]" "[0, 42]" "[0, 42, 2]" "[0, 0, 0]" "[0, 0, 0, 2]" "[0, 0]" "[0, 0, 7]" "[0]"]
    a b c d
  show ?thesis by simp
qed

text \<open>
  Claim C9 as stated fails: a palette entry cut after its mapping id raises TypeError,
  not struct.error.
\<close>

theorem truncated_facing_counterexample:
  "decode_chunk example_mapping (magic4 @ [0, 0, 0, 1] @ [0, 0, 0, 1] @ [0, 42]) = Inl TypeError \<and>
   TypeError \<noteq> StructError"
  by (simp add: decode_chunk_def decode_chunk_with_def parse_header_def stream_read_def
        unpack_be_def ord_byte_def Let_def be_int_def magic4_def)

text \<open>
  The two palette lookups of a block record. The lookup in the global palette never
  raises on an index read from the stream: past the end it gives "INVALID". The lookup
  in the local palette raises on every index at or past the end.
\<close>

lemma resolve_state_out_of_range:
  "int (length global_palette) \<le> gid \<Longrightarrow> resolve_state global_palette gid = Inr ''INVALID''"
  by (simp add: resolve_state_def)

lemma resolve_state_in_range:
  "0 \<le> gid \<Longrightarrow> gid < int (length global_palette) \<Longrightarrow>
   resolve_state global_palette gid = Inr (global_palette ! nat gid)"
  by (simp add: resolve_state_def py_index_def)

lemma local_lookup_out_of_range:
  "int (length local_to_global) \<le> lid \<Longrightarrow> py_index local_to_global lid = Inl IndexError"
  by (simp add: py_index_def)

text \<open>
  Claim C1 fails on the code. On \<open>bad_local_id_chunk\<close> a block record of a
  micro-cube with three local palette entries selects local id 3, and
  \<open>local_to_global[lid]\<close> raises IndexError: the chunk yields no block list. The
  lookup in the global palette is guarded: on \<open>bad_global_id_chunk\<close> the global id 5
  is past the end of the empty global palette and the block has the state "INVALID".
\<close>

theorem local_id_out_of_range_raises:
  "decode_chunk example_mapping bad_local_id_chunk = Inl IndexError \<and>
   decode_chunk example_mapping bad_global_id_chunk =
     Inr (Some \<lparr>version = 1, palette = [],
                blocks = [\<lparr>blk_x = 3, blk_y = 5, blk_z = 7, blk_state = ''INVALID''\<rparr>],
                be_count = 0\<rparr>)"
  by code_simp







lemma stream_bits_one: "stream_bits d pos (Suc 0) = of_bool (bit_at d pos)"
  by simp












lemma run_cubes_append:
  "run_cubes dmc gp sy (cs @ ds) r =
     ebind (run_cubes dmc gp sy cs r) (\<lambda>(res, r1).
     ebind (run_cubes dmc gp sy ds r1) (\<lambda>(more, r2). Inr (res @ more, r2)))"
proof (induction cs arbitrary: r)
  case Nil
  show ?case by (simp add: ebind_def split: sum.splits)
next
  case (Cons c cs)
  show ?case
    by (cases c) (simp add: Cons.IH ebind_def split: sum.splits prod.splits)
qed

lemma ebind_accumulate:
  "ebind (ebind A (\<lambda>(res, r'). Inr (acc @ res, r')))
     (\<lambda>(acc', r'). ebind (B r') (\<lambda>(res2, r''). Inr (acc' @ res2, r''))) =
   ebind (ebind A (\<lambda>(res, r1). ebind (B r1) (\<lambda>(more, r2). Inr (res @ more, r2))))
     (\<lambda>(res, r'). Inr (acc @ res, r'))"
  by (cases A) (auto simp: ebind_def split: sum.splits prod.splits)

lemma loop_mx_run_cubes:
  "loop_mx dmc gp sy my mz mxs r acc =
     ebind (run_cubes dmc gp sy (map (\<lambda>mx. (mx, my, mz)) mxs) r)
       (\<lambda>(res, r'). Inr (acc @ res, r'))"
proof (induction mxs arbitrary: r acc)
  case Nil
  show ?case by simp
next
  case (Cons mx mxs)
  show ?case
    by (simp add: Cons.IH ebind_def split: sum.splits prod.splits)
qed

lemma loop_mz_run_cubes:
  "loop_mz dmc gp sy my mzs r acc =
     ebind (run_cubes dmc gp sy
              (concat (map (\<lambda>mz. map (\<lambda>mx. (mx, my, mz)) [0, 1, 2, 3]) mzs)) r)
       (\<lambda>(res, r'). Inr (acc @ res, r'))"
proof (induction mzs arbitrary: r acc)
  case Nil
  show ?case by simp
next
  case (Cons mz mzs)
  show ?case
    by (simp only: loop_mz.simps loop_mx_run_cubes Cons.IH list.map(2) [of _ mz mzs]
          concat.simps run_cubes_append ebind_accumulate)
qed

lemma loop_my_run_cubes:
  "loop_my dmc gp sy mys r acc =
     ebind (run_cubes dmc gp sy
              (concat (map (\<lambda>my. concat (map (\<lambda>mz. map (\<lambda>mx. (mx, my, mz)) [0, 1, 2, 3])
                                             [0, 1, 2, 3])) mys)) r)
       (\<lambda>(res, r'). Inr (acc @ res, r'))"
proof (induction mys arbitrary: r acc)
  case Nil
  show ?case by simp
next
  case (Cons my mys)
  show ?case
    by (simp only: loop_my.simps loop_mz_run_cubes Cons.IH list.map(2) [of _ my mys]
          concat.simps run_cubes_append ebind_accumulate)
qed

lemma loop_my_cube_order:
  "loop_my dmc gp sy [0, 1, 2, 3] r acc =
     ebind (run_cubes dmc gp sy cube_order r) (\<lambda>(res, r'). Inr (acc @ res, r'))"
  unfolding cube_order_def by (rule loop_my_run_cubes)

lemma loop_sections_run_sections:
  "loop_sections dmc gp n r acc =
     ebind (run_sections dmc gp n r) (\<lambda>(res, r'). Inr (acc @ res, r'))"
proof (induction n arbitrary: r acc)
  case 0
  show ?case by simp
next
  case (Suc n)
  show ?case
    by (simp only: loop_sections.simps loop_my_cube_order Suc.IH run_sections.simps)
       (simp add: ebind_def split: sum.splits prod.splits)
qed

lemma cube_order_index:
  "cube_order = map (\<lambda>i. (int (i mod 4), int (i div 16), int (i div 4 mod 4))) [0..<64]"
  by code_simp

lemma length_cube_order: "length cube_order = 64"
  by (simp add: cube_order_index)

text \<open>
  Claim C6. After the header, \<open>decode_chunk\<close> reads the 16-bit section count and
  then, for each section, a 16-bit zigzag \<open>section_y\<close> followed by the calls of the
  micro-cube decoder on the 64 coordinates of \<open>cube_order\<close>, in that order, each on
  the reader the previous call left; the block list is the concatenation of what the
  calls return. The \<open>i\<close>-th coordinate has \<open>mx = i mod 4\<close>, \<open>mz = i div 4 mod 4\<close> and
  \<open>my = i div 16\<close>. This holds for any micro-cube decoder \<open>dmc\<close>.
\<close>

theorem decode_chunk_section_order:
  "(parse_header mapping s = Inr (Some (ver, gp, inst, bec)) \<longrightarrow>
      decode_chunk_with dmc mapping s =
        ebind (read (BitReader_init inst) 16) (\<lambda>(section_count, r).
        ebind (run_sections dmc gp (nat section_count) r) (\<lambda>(bs, r').
          Inr (Some \<lparr>version = ver, palette = gp, blocks = bs, be_count = bec\<rparr>)))) \<and>
   decode_chunk mapping s = decode_chunk_with decode_micro_cube mapping s \<and>
   cube_order = map (\<lambda>i. (int (i mod 4), int (i div 16), int (i div 4 mod 4))) [0..<64]"
proof (intro conjI impI)
  assume h: "parse_header mapping s = Inr (Some (ver, gp, inst, bec))"
  show "decode_chunk_with dmc mapping s =
        ebind (read (BitReader_init inst) 16) (\<lambda>(section_count, r).
        ebind (run_sections dmc gp (nat section_count) r) (\<lambda>(bs, r').
          Inr (Some \<lparr>version = ver, palette = gp, blocks = bs, be_count = bec\<rparr>)))"
    unfolding decode_chunk_with_def h decode_instructions_def loop_sections_run_sections
    by (simp add: ebind_def split: sum.splits prod.splits)
next
  show "decode_chunk mapping s = decode_chunk_with decode_micro_cube mapping s"
    by (simp add: decode_chunk_def)
next
  show "cube_order = map (\<lambda>i. (int (i mod 4), int (i div 16), int (i div 4 mod 4))) [0..<64]"
    by (rule cube_order_index)
qed

lemma example_header:
  "parse_header example_mapping example_chunk =
     Inr (Some (1, [''stone_stairs[facing=north]''], example_inst, 0))"
  by code_simp

lemma example_sections:
  "ebind (read (BitReader_init example_inst) 16) (\<lambda>(section_count, r).
   ebind (run_sections decode_micro_cube [''stone_stairs[facing=north]''] (nat section_count) r)
     (\<lambda>(bs, r'). Inr (Some \<lparr>version = 1, palette = [''stone_stairs[facing=north]''],
                               blocks = bs, be_count = 0\<rparr>))) =
   Inr (Some \<lparr>version = 1, palette = [''stone_stairs[facing=north]''],
              blocks = [\<lparr>blk_x = 3, blk_y = 5, blk_z = 7,
                         blk_state = ''stone_stairs[facing=north]''\<rparr>],
              be_count = 0\<rparr>)"
  by code_simp

theorem decode_chunk_section_order_witness:
  "parse_header example_mapping example_chunk =
     Inr (Some (1, [''stone_stairs[facing=north]''], example_inst, 0)) \<and>
   decode_chunk example_mapping example_chunk =
     Inr (Some \<lparr>version = 1, palette = [''stone_stairs[facing=north]''],
                blocks = [\<lparr>blk_x = 3, blk_y = 5, blk_z = 7,
                           blk_state = ''stone_stairs[facing=north]''\<rparr>],
                be_count = 0\<rparr>)"
proof -
  from decode_chunk_section_order [of example_mapping example_chunk 1
      "[''stone_stairs[facing=north]'']" example_inst 0 decode_micro_cube]
    example_header
  have "decode_chunk example_mapping example_chunk =
        ebind (read (BitReader_init example_inst) 16) (\<lambda>(section_count, r).
        ebind (run_sections decode_micro_cube [''stone_stairs[facing=north]'']
                 (nat section_count) r)
          (\<lambda>(bs, r'). Inr (Some \<lparr>version = 1, palette = [''stone_stairs[facing=north]''],
                                    blocks = bs, be_count = 0\<rparr>)))"
    by simp
  with example_header example_sections show ?thesis by simp
qed

lemma unpack_entry_ok:
  "length header = 2048 \<Longrightarrow> i < 256 \<Longrightarrow>
   unpack_entry header i =
     Inr (be_int (take 4 (take 8 (drop (i * 8) header))),
          be_int (drop 4 (take 8 (drop (i * 8) header))))"
  by (auto simp: unpack_entry_def Let_def min_def)

lemma try_slot_result:
  "unpack_entry header i = Inr (off, len) \<Longrightarrow>
   (if off > 0 \<and> len > 0 then try_slot dz mapping i (file_read f off len) chunks else chunks)
     = chunks @ slot_result dz mapping f header i"
  by (simp add: try_slot_def slot_result_def slot_chunks_def slot_pos_def slot_bytes_def
        ebind_def split: sum.splits option.splits)

lemma region_loop_slots:
  "length header = 2048 \<Longrightarrow> \<forall>i \<in> set idxs. i < 256 \<Longrightarrow>
   region_loop dz mapping f header idxs chunks =
     Inr (chunks @ concat (map (slot_result dz mapping f header) idxs))"
proof (induction idxs arbitrary: chunks)
  case Nil
  show ?case by simp
next
  case (Cons i idxs)
  from Cons.prems have i: "i < 256" and rest: "\<forall>j \<in> set idxs. j < 256" by auto
  from unpack_entry_ok [OF Cons.prems(1) i] obtain off len where
    e: "unpack_entry header i = Inr (off, len)" by blast
  have "region_loop dz mapping f header (i # idxs) chunks =
          region_loop dz mapping f header idxs (chunks @ slot_result dz mapping f header i)"
    using try_slot_result [OF e, of dz mapping f chunks] by (simp add: e)
  also have "\<dots> = Inr ((chunks @ slot_result dz mapping f header i)
                       @ concat (map (slot_result dz mapping f header) idxs))"
    by (rule Cons.IH [OF Cons.prems(1) rest])
  finally show ?case by simp
qed

lemma parse_region_slots:
  "length header = 2048 \<Longrightarrow>
   parse_region dz mapping f header =
     Inr (concat (map (slot_result dz mapping f header) [0..<256]))"
  using region_loop_slots [of header "[0..<256]" dz mapping f "[]"]
  by (simp add: parse_region_def)

section \<open>Properties of the region reader\<close>

lemma slot_result_pos:
  "e \<in> set (slot_result dz mapping f header j) \<Longrightarrow> fst e = slot_pos j"
  by (auto simp: slot_result_def)

lemma slot_result_cong:
  "slot_bytes f' header j = slot_bytes f header j \<Longrightarrow>
   slot_result dz mapping f' header j = slot_result dz mapping f header j"
  unfolding slot_result_def slot_chunks_def by (simp only:)

lemma filter_concat_map:
  "filter P (concat (map g xs)) = concat (map (\<lambda>x. filter P (g x)) xs)"
  by (induction xs) simp_all

lemma slot_result_own_pos:
  "filter (\<lambda>e. fst e \<noteq> slot_pos i) (slot_result dz mapping g header i) = []"
  by (simp add: slot_result_def filter_empty_conv)

lemma slots_filter_same:
  assumes "\<forall>j \<in> set idxs. j \<noteq> i \<longrightarrow> slot_bytes f' header j = slot_bytes f header j"
  shows "filter (\<lambda>e. fst e \<noteq> slot_pos i) (concat (map (slot_result dz mapping f' header) idxs)) =
         filter (\<lambda>e. fst e \<noteq> slot_pos i) (concat (map (slot_result dz mapping f header) idxs))"
  using assms
proof (induction idxs)
  case Nil
  show ?case by simp
next
  case (Cons j idxs)
  have rest: "\<forall>k \<in> set idxs. k \<noteq> i \<longrightarrow> slot_bytes f' header k = slot_bytes f header k"
    using Cons.prems by simp
  have head: "filter (\<lambda>e. fst e \<noteq> slot_pos i) (slot_result dz mapping f' header j) =
              filter (\<lambda>e. fst e \<noteq> slot_pos i) (slot_result dz mapping f header j)"
  proof (cases "j = i")
    case True
    show ?thesis unfolding True by (simp only: slot_result_own_pos)
  next
    case False
    with Cons.prems have "slot_bytes f' header j = slot_bytes f header j" by simp
    from slot_result_cong [OF this] show ?thesis by (simp only:)
  qed
  show ?case
    by (simp only: list.map concat.simps filter_append head Cons.IH [OF rest])
qed

text \<open>
  Claim C8. With the 2048-byte offset table, \<open>parse_region\<close> never raises: its chunks
  list is the concatenation, in slot order, of what each of the 256 slots yields on
  its own, and a slot that is unused, fails to decompress or fails to decode yields
  nothing. When two files give every slot but slot \<open>i\<close> the same bytes, the two
  chunk lists agree on every entry that is not at the position of slot \<open>i\<close>.
  \<open>zlib.decompress\<close> is any function \<open>dz\<close>.
\<close>

theorem parse_region_isolates_slots:
  assumes "length header = 2048" and "i < 256"
    and "\<forall>j<256. j \<noteq> i \<longrightarrow> slot_bytes f' header j = slot_bytes f header j"
  shows "parse_region dz mapping f header =
           Inr (concat (map (slot_result dz mapping f header) [0..<256])) \<and>
         parse_region dz mapping f' header =
           Inr (concat (map (slot_result dz mapping f' header) [0..<256])) \<and>
         filter (\<lambda>e. fst e \<noteq> slot_pos i)
             (concat (map (slot_result dz mapping f' header) [0..<256])) =
           filter (\<lambda>e. fst e \<noteq> slot_pos i)
             (concat (map (slot_result dz mapping f header) [0..<256]))"
proof (intro conjI)
  show "parse_region dz mapping f header =
           Inr (concat (map (slot_result dz mapping f header) [0..<256]))"
    by (rule parse_region_slots [OF assms(1)])
  show "parse_region dz mapping f' header =
           Inr (concat (map (slot_result dz mapping f' header) [0..<256]))"
    by (rule parse_region_slots [OF assms(1)])
  have "\<forall>j \<in> set [0..<256]. j \<noteq> i \<longrightarrow> slot_bytes f' header j = slot_bytes f header j"
    using assms(3) by (auto simp only: set_upt atLeastLessThan_iff)
  then show "filter (\<lambda>e. fst e \<noteq> slot_pos i)
             (concat (map (slot_result dz mapping f' header) [0..<256])) =
           filter (\<lambda>e. fst e \<noteq> slot_pos i)
             (concat (map (slot_result dz mapping f header) [0..<256]))"
    by (rule slots_filter_same)
qed

lemma be_int_zeros: "be_int (replicate n 0) = 0"
proof -
  have "foldl (\<lambda>acc b. acc * 256 + uint b) 0 (replicate n (0 :: 8 word)) = 0"
    by (induction n) simp_all
  then show ?thesis by (simp add: be_int_def)
qed

lemma region_header_length: "length region_header = 2048"
  by (simp add: region_header_def)

lemma region_header_unused:
  assumes "2 \<le> j" and "j < 256"
  shows "unpack_entry region_header j = Inr (0, 0)"
proof -
  have "drop (j * 8) region_header = drop (j * 8 - 16) (drop 16 region_header)"
    using assms by simp
  also have "drop 16 region_header = replicate 2032 0"
    by (simp add: region_header_def)
  finally have "drop (j * 8) region_header = replicate (2048 - j * 8) 0"
    using assms by simp
  moreover have "min (2048 - j * 8) 8 = 8" using assms by simp
  ultimately show ?thesis
    by (simp add: unpack_entry_def Let_def be_int_zeros min.commute)
qed

lemma unused_slot_bytes:
  "2 \<le> j \<Longrightarrow> j < 256 \<Longrightarrow> slot_bytes f region_header j = []"
  by (simp add: slot_bytes_def region_header_unused file_read_def)

lemma unused_slot_result:
  "2 \<le> j \<Longrightarrow> j < 256 \<Longrightarrow> slot_result dz mapping f region_header j = []"
  by (simp add: slot_result_def slot_chunks_def region_header_unused)

lemma tiny_chunk_length: "length tiny_chunk = 22"
  by (simp add: tiny_chunk_def)

lemma region_entry0: "unpack_entry region_header 0 = Inr (2048, 23)"
  by (simp add: unpack_entry_def region_header_def be_int_def Let_def)

lemma region_entry1: "unpack_entry region_header (Suc 0) = Inr (2071, 23)"
  by (simp add: unpack_entry_def region_header_def be_int_def Let_def)

lemma region_slot_bytes:
  "slot_bytes (region_header @ a @ b) region_header 0 = take 23 (a @ b)"
  "length a = 23 \<Longrightarrow> slot_bytes (region_header @ a @ b) region_header (Suc 0) = take 23 b"
  by (simp_all add: slot_bytes_def region_entry0 region_entry1 file_read_def
        region_header_length)

lemma file_slot_bytes:
  "slot_bytes region_file region_header 0 = 0x78 # tiny_chunk"
  "slot_bytes region_file region_header (Suc 0) = 0x78 # tiny_chunk"
  "slot_bytes corrupt_file region_header 0 = 0xFF # tiny_chunk"
  "slot_bytes corrupt_file region_header (Suc 0) = 0x78 # tiny_chunk"
  unfolding region_file_def corrupt_file_def
  using region_slot_bytes [of "0x78 # tiny_chunk" "0x78 # tiny_chunk"]
    region_slot_bytes [of "0xFF # tiny_chunk" "0x78 # tiny_chunk"]
  by (simp_all add: tiny_chunk_length)

lemma tiny_chunk_decodes:
  "decode_chunk example_mapping tiny_chunk =
     Inr (Some \<lparr>version = 1, palette = [], blocks = [], be_count = 0\<rparr>)"
  by code_simp

lemma region_slot_results:
  "slot_result toy_inflate example_mapping region_file region_header 0 =
     [((0, 0), \<lparr>version = 1, palette = [], blocks = [], be_count = 0\<rparr>)]"
  "slot_result toy_inflate example_mapping region_file region_header (Suc 0) =
     [((1, 0), \<lparr>version = 1, palette = [], blocks = [], be_count = 0\<rparr>)]"
  "slot_result toy_inflate example_mapping corrupt_file region_header 0 = []"
  "slot_result toy_inflate example_mapping corrupt_file region_header (Suc 0) =
     [((1, 0), \<lparr>version = 1, palette = [], blocks = [], be_count = 0\<rparr>)]"
  by (simp_all add: slot_result_def slot_chunks_def region_entry0 region_entry1
        file_slot_bytes toy_inflate_def tiny_chunk_decodes slot_pos_def)

lemma region_indices: "[0..<256] = 0 # Suc 0 # [2..<256]"
  by (simp add: upt_conv_Cons numeral_2_eq_2)

lemma region_unused_tail:
  "concat (map (slot_result dz mapping f region_header) [2..<256]) = []"
  by (simp add: unused_slot_result)

lemma region_same_slots:
  "\<forall>j<256. j \<noteq> 0 \<longrightarrow>
     slot_bytes corrupt_file region_header j = slot_bytes region_file region_header j"
proof (intro allI impI)
  fix j :: nat assume j: "j < 256" "j \<noteq> 0"
  show "slot_bytes corrupt_file region_header j = slot_bytes region_file region_header j"
  proof (cases "j = 1")
    case True
    then show ?thesis by (simp add: file_slot_bytes)
  next
    case False
    with j have "2 \<le> j" by simp
    with j show ?thesis by (simp add: unused_slot_bytes)
  qed
qed

theorem parse_region_isolates_slots_witness:
  "length region_header = 2048 \<and>
   slot_bytes corrupt_file region_header 0 \<noteq> slot_bytes region_file region_header 0 \<and>
   parse_region toy_inflate example_mapping region_file region_header =
     Inr [((0, 0), \<lparr>version = 1, palette = [], blocks = [], be_count = 0\<rparr>),
          ((1, 0), \<lparr>version = 1, palette = [], blocks = [], be_count = 0\<rparr>)] \<and>
   parse_region toy_inflate example_mapping corrupt_file region_header =
     Inr [((1, 0), \<lparr>version = 1, palette = [], blocks = [], be_count = 0\<rparr>)]"
proof -
  have z: "(0::nat) < 256" by simp
  have d: "slot_bytes corrupt_file region_header 0 \<noteq> slot_bytes region_file region_header 0"
    by (simp add: file_slot_bytes)
  have c: "concat (map (slot_result dz mapping f region_header) [0..<256]) =
           slot_result dz mapping f region_header 0 @
           slot_result dz mapping f region_header (Suc 0)" for dz mapping f
    by (simp only: region_indices list.map concat.simps region_unused_tail append_Nil2)
  from parse_region_isolates_slots [OF region_header_length z region_same_slots,
      of toy_inflate example_mapping]
  have "parse_region toy_inflate example_mapping region_file region_header =
          Inr (slot_result toy_inflate example_mapping region_file region_header 0 @
               slot_result toy_inflate example_mapping region_file region_header (Suc 0))"
    and "parse_region toy_inflate example_mapping corrupt_file region_header =
          Inr (slot_result toy_inflate example_mapping corrupt_file region_header 0 @
               slot_result toy_inflate example_mapping corrupt_file region_header (Suc 0))"
    by (simp_all only: c)
  then show ?thesis
    by (simp add: region_header_length d region_slot_results)
qed

end
